theory Spec2Isabelle
  imports Complex_Main "HOL-Library.Sublist"
begin

section \<open>Characters and strings\<close>

text \<open>
  A Python \<open>str\<close> is a sequence of code points. The model takes the code points below
  256, one \<^typ>\<open>char\<close> each, so \<^typ>\<open>string\<close> is the type of the patterns, lines,
  names and paths of the program. The three character tables of the standard library the
  program relies on (\<open>str.isspace\<close>, \<open>str.lower\<close> and the word characters of \<open>re\<close>)
  are written out for this range.
\<close>

abbreviation BSL :: char where "BSL \<equiv> CHR 0x5C"
abbreviation LF :: char where "LF \<equiv> CHR 0x0A"
abbreviation CR :: char where "CR \<equiv> CHR 0x0D"
abbreviation NUL :: char where "NUL \<equiv> CHR 0x00"

definition ord :: "char \<Rightarrow> nat" where
  "ord c = of_char c"

definition in_range :: "nat \<Rightarrow> nat \<Rightarrow> char \<Rightarrow> bool" where
  "in_range lo hi c = (lo \<le> ord c \<and> ord c \<le> hi)"

definition is_space :: "char \<Rightarrow> bool" where
  \<comment> \<open>\<open>str.isspace\<close>: tab to carriage return, the four separators, space, NEL, NBSP\<close>
  "is_space c = (in_range 9 13 c \<or> in_range 28 32 c \<or> ord c = 133 \<or> ord c = 160)"

definition is_upper :: "char \<Rightarrow> bool" where
  \<comment> \<open>the characters \<open>str.lower\<close> changes: A-Z and the Latin-1 capitals but the times sign\<close>
  "is_upper c = (in_range 65 90 c \<or> (in_range 192 222 c \<and> ord c \<noteq> 215))"

fun set_bit5 :: "char \<Rightarrow> char" where
  "set_bit5 (Char b0 b1 b2 b3 b4 b5 b6 b7) = Char b0 b1 b2 b3 b4 True b6 b7"

definition lower_chr :: "char \<Rightarrow> char" where
  \<comment> \<open>a capital and its small letter are 32 apart: bit 5\<close>
  "lower_chr c = (if is_upper c then set_bit5 c else c)"

definition lower :: "string \<Rightarrow> string" where
  "lower s = map lower_chr s"

definition is_word :: "char \<Rightarrow> bool" where
  \<comment> \<open>the \<open>\w\<close> of \<open>re\<close> on \<open>str\<close>: alphanumeric or underscore\<close>
  "is_word c =
     (in_range 48 57 c \<or> in_range 65 90 c \<or> in_range 97 122 c \<or> c = CHR ''_''
      \<or> ord c = 170 \<or> ord c = 178 \<or> ord c = 179 \<or> ord c = 181 \<or> ord c = 185
      \<or> ord c = 186 \<or> in_range 188 190 c
      \<or> (in_range 192 255 c \<and> ord c \<noteq> 215 \<and> ord c \<noteq> 247))"

definition strip :: "string \<Rightarrow> string" where
  "strip s = rev (dropWhile is_space (rev (dropWhile is_space s)))"

definition rstrip_chr :: "char \<Rightarrow> string \<Rightarrow> string" where
  "rstrip_chr c s = rev (dropWhile (\<lambda>d. d = c) (rev s))"

definition startswith :: "string \<Rightarrow> string \<Rightarrow> bool" where
  "startswith s p = prefix p s"

definition endswith :: "string \<Rightarrow> string \<Rightarrow> bool" where
  "endswith s p = suffix p s"

fun contains :: "string \<Rightarrow> string \<Rightarrow> bool" where
  \<comment> \<open>\<open>needle in hay\<close>\<close>
  "contains needle [] = (needle = [])"
| "contains needle (h # hs) = (prefix needle (h # hs) \<or> contains needle hs)"


section \<open>Shell-style patterns: \<open>fnmatch.fnmatchcase\<close>\<close>

text \<open>
  \<open>fnmatchcase name pat\<close> translates the pattern and matches the whole name: \<open>*\<close> is any
  run of characters (the separator included), \<open>?\<close> any one character, \<open>[seq]\<close> one
  character of a set and \<open>[!seq]\<close> one outside it; a \<open>[\<close> that is never closed stands
  for itself.
\<close>

datatype glob_tok = GStar | GAny | GSet bool "(char \<times> char) list" | GLit char

fun set_items :: "string \<Rightarrow> (char \<times> char) list" where
  "set_items (c # d # e # r) =
     (if d = CHR ''-'' then (c, e) # set_items r else (c, c) # set_items (d # e # r))"
| "set_items (c # r) = (c, c) # set_items r"
| "set_items [] = []"

definition split_set :: "string \<Rightarrow> (string \<times> string) option" where
  \<comment> \<open>after a \<open>[\<close>: the set's text and what follows its \<open>]\<close>; a \<open>!\<close> and then a \<open>]\<close>
      right at the start belong to the set\<close>
  "split_set cs =
     (let (p1, r1) = (case cs of c # r \<Rightarrow> if c = CHR ''!'' then ([c], r) else ([], cs)
                       | [] \<Rightarrow> ([], []));
          (p2, r2) = (case r1 of c # r \<Rightarrow> if c = CHR '']'' then ([c], r) else ([], r1)
                       | [] \<Rightarrow> ([], []))
      in case dropWhile (\<lambda>c. c \<noteq> CHR '']'') r2 of
           [] \<Rightarrow> None
         | _ # rest \<Rightarrow> Some (p1 @ p2 @ takeWhile (\<lambda>c. c \<noteq> CHR '']'') r2, rest))"

definition mk_set :: "string \<Rightarrow> glob_tok" where
  "mk_set stuff =
     (case stuff of
        c # r \<Rightarrow> if c = CHR ''!'' then GSet True (set_items r) else GSet False (set_items stuff)
      | [] \<Rightarrow> GSet False [])"

lemma split_set_shorter: "split_set cs = Some (stuff, rest) \<Longrightarrow> length rest \<le> length cs"
proof -
  have dw: "\<And>xs y ys. dropWhile (\<lambda>c. c \<noteq> CHR '']'') xs = y # ys \<Longrightarrow> length ys < length xs"
  proof -
    fix xs :: string and y ys
    assume h: "dropWhile (\<lambda>c. c \<noteq> CHR '']'') xs = y # ys"
    have "length (dropWhile (\<lambda>c. c \<noteq> CHR '']'') xs) \<le> length xs"
      by (rule length_dropWhile_le)
    with h show "length ys < length xs" by simp
  qed
  assume "split_set cs = Some (stuff, rest)"
  then show ?thesis
    by (auto simp: split_set_def Let_def split: list.splits if_splits dest!: dw)
qed

function glob_toks :: "string \<Rightarrow> glob_tok list" where
  "glob_toks [] = []"
| "glob_toks (c # cs) =
     (if c = CHR ''*'' then GStar # glob_toks cs
      else if c = CHR ''?'' then GAny # glob_toks cs
      else if c = CHR ''['' then
        (case split_set cs of
           None \<Rightarrow> GLit c # glob_toks cs
         | Some (stuff, rest) \<Rightarrow> mk_set stuff # glob_toks rest)
      else GLit c # glob_toks cs)"
  by pat_completeness auto
termination
  by (relation "measure length") (auto dest: split_set_shorter)

definition in_set :: "char \<Rightarrow> (char \<times> char) list \<Rightarrow> bool" where
  "in_set c items = list_ex (\<lambda>(lo, hi). ord lo \<le> ord c \<and> ord c \<le> ord hi) items"

fun tok_accepts :: "glob_tok \<Rightarrow> char \<Rightarrow> bool" where
  "tok_accepts GAny c = True"
| "tok_accepts (GLit d) c = (c = d)"
| "tok_accepts (GSet neg items) c = (in_set c items \<noteq> neg)"
| "tok_accepts GStar c = True"

fun glob_match :: "glob_tok list \<Rightarrow> string \<Rightarrow> bool" where
  "glob_match [] s = (s = [])"
| "glob_match (GStar # ts) [] = glob_match ts []"
| "glob_match (GStar # ts) (c # cs) = (glob_match ts (c # cs) \<or> glob_match (GStar # ts) cs)"
| "glob_match (t # ts) [] = False"
| "glob_match (t # ts) (c # cs) = (tok_accepts t c \<and> glob_match ts cs)"

definition fnmatchcase :: "string \<Rightarrow> string \<Rightarrow> bool" where
  "fnmatchcase name pat = glob_match (glob_toks pat) name"


section \<open>Ignore rules\<close>

text \<open>
  A rule is the tuple the program keeps: the pattern, the negation flag and the
  directory-only flag. \<open>load_gitignore_rules\<close> reads the ignore file line by line; the model
  receives the lines as the file iteration gives them (\<open>None\<close> when the file cannot be
  opened, where the program returns no rules).
\<close>

type_synonym ignore_rule = "string \<times> bool \<times> bool"

definition parse_rule :: "string \<Rightarrow> ignore_rule option" where
  "parse_rule raw =
     (let line = strip raw in
      if line = [] \<or> startswith line ''#'' then None
      else
        let negated = startswith line ''!'';
            line = (if negated then strip (tl line) else line)
        in if negated \<and> line = [] then None
           else
             let dir_only = endswith line ''/'';
                 pat = rstrip_chr CHR ''/'' line;
                 pat = (if dir_only then pat @ ''/**'' else pat)
             in Some (pat, negated, dir_only))"

fun load_lines :: "string list \<Rightarrow> ignore_rule list" where
  "load_lines [] = []"
| "load_lines (raw # raws) =
     (case parse_rule raw of None \<Rightarrow> load_lines raws | Some r \<Rightarrow> r # load_lines raws)"

definition load_gitignore_rules :: "string list option \<Rightarrow> ignore_rule list" where
  "load_gitignore_rules file = (case file of None \<Rightarrow> [] | Some raws \<Rightarrow> load_lines raws)"

definition basename :: "string \<Rightarrow> string" where
  \<comment> \<open>\<open>rel.rsplit("/", 1)[-1]\<close>: what follows the last separator\<close>
  "basename rel = rev (takeWhile (\<lambda>c. c \<noteq> CHR ''/'') (rev rel))"

definition rule_applies :: "string \<Rightarrow> bool \<Rightarrow> ignore_rule \<Rightarrow> bool" where
  \<comment> \<open>the rule is not skipped and its pattern matches its target\<close>
  "rule_applies rel is_dir r =
     (case r of (pat, negated, dir_only) \<Rightarrow>
        \<not> (dir_only \<and> \<not> is_dir)
        \<and> fnmatchcase (if CHR ''/'' \<in> set pat then rel else basename rel) pat)"

fun ignored_loop :: "string \<Rightarrow> bool \<Rightarrow> bool \<Rightarrow> ignore_rule list \<Rightarrow> bool" where
  "ignored_loop rel is_dir ignored [] = ignored"
| "ignored_loop rel is_dir ignored ((pat, negated, dir_only) # rules) =
     (if dir_only \<and> \<not> is_dir then ignored_loop rel is_dir ignored rules
      else if fnmatchcase (if CHR ''/'' \<in> set pat then rel else basename rel) pat
        then ignored_loop rel is_dir (\<not> negated) rules
      else ignored_loop rel is_dir ignored rules)"

definition gitignore_ignored :: "string \<Rightarrow> bool \<Rightarrow> ignore_rule list \<Rightarrow> bool" where
  "gitignore_ignored rel is_dir rules =
     (if rules = [] then False else ignored_loop rel is_dir False rules)"


section \<open>The external backend's exclude filters\<close>

text \<open>
  \<open>start_search_for_tab\<close> builds the exclude globs from the text of the exclude entry:
  the text is cut at every \<open>;\<close>, each piece is stripped, and the empty pieces are dropped.
  \<open>_worker_text_ripgrep\<close> then appends the negated glob filters of each exclude glob to
  the command line, in order.
\<close>

fun split_semis :: "string \<Rightarrow> string \<Rightarrow> string list" where
  \<comment> \<open>\<open>text.split(";")\<close>, with the piece read so far\<close>
  "split_semis cur [] = [cur]"
| "split_semis cur (c # cs) =
     (if c = CHR '';'' then cur # split_semis [] cs else split_semis (cur @ [c]) cs)"

definition glob_list :: "string \<Rightarrow> string list" where
  \<comment> \<open>\<open>[g.strip() for g in text.split(";") if g.strip()]\<close>\<close>
  "glob_list entry = map strip (filter (\<lambda>g. strip g \<noteq> []) (split_semis [] entry))"

definition has_wildcards :: "string \<Rightarrow> bool" where
  "has_wildcards g =
     (list_ex (\<lambda>ch. ch \<in> set g) [CHR ''*'', CHR ''?'', CHR ''[''] \<or> CHR ''/'' \<in> set g \<or> BSL \<in> set g)"

fun exclude_filters :: "string list \<Rightarrow> string list" where
  \<comment> \<open>what the loop over \<open>exclude_globs\<close> appends to \<open>cmd\<close>\<close>
  "exclude_filters [] = []"
| "exclude_filters (g # gs) =
     (if g = [] then exclude_filters gs
      else if has_wildcards g then [''--glob'', ''!'' @ g] @ exclude_filters gs
      else [''--glob'', ''!'' @ g] @ [''--glob'', ''!**/'' @ g @ ''/**''] @ exclude_filters gs)"



section \<open>Regular expressions: the \<open>re\<close> library\<close>

text \<open>
  The workers hand an expression to \<open>re.compile\<close> (or to \<open>re.search\<close>, which compiles
  it) and ask the compiled pattern whether it is found in a line. The library is a
  parameter of the model: a function from the expression and the ignore-case flag to the
  search predicate of the compiled pattern, or to \<open>None\<close> where the library raises
  \<open>re.error\<close>.

  What the library does is written out for a fragment of its syntax: literal characters,
  an escaped character that is not an ASCII letter or digit, the word boundary \<open>\b\<close>,
  the dot, alternation and groups. \<open>re_parse\<close> answers \<open>Unmodelled\<close> on every other
  expression, and \<open>agrees\<close> says that a library does on the fragment what is written
  here; nothing is assumed of it elsewhere.
\<close>

type_synonym re_lib = "string \<Rightarrow> bool \<Rightarrow> (string \<Rightarrow> bool) option"

datatype rx = Eps | Lit char | Dot | WordB | Cat rx rx | Alt rx rx

datatype parsed = Parsed rx | Re_Error | Unmodelled

definition is_ascii_alnum :: "char \<Rightarrow> bool" where
  "is_ascii_alnum c = (in_range 48 57 c \<or> in_range 65 90 c \<or> in_range 97 122 c)"

definition close_frame :: "rx option \<times> rx \<Rightarrow> rx" where
  \<comment> \<open>the alternatives read so far and the branch being read, as one expression\<close>
  "close_frame fr = (case fst fr of None \<Rightarrow> snd fr | Some a \<Rightarrow> Alt a (snd fr))"

fun re_parse_loop :: "rx option \<times> rx \<Rightarrow> (rx option \<times> rx) list \<Rightarrow> string \<Rightarrow> parsed" where
  "re_parse_loop fr stack [] = (if stack = [] then Parsed (close_frame fr) else Re_Error)"
| "re_parse_loop fr stack (c # cs) =
     (if c = BSL then
        (case cs of
           [] \<Rightarrow> Re_Error
         | e # cs' \<Rightarrow>
             if e = CHR ''b'' then re_parse_loop (fst fr, Cat (snd fr) WordB) stack cs'
             else if is_ascii_alnum e then Unmodelled
             else re_parse_loop (fst fr, Cat (snd fr) (Lit e)) stack cs')
      else if c = CHR ''|'' then re_parse_loop (Some (close_frame fr), Eps) stack cs
      else if c = CHR ''('' then
        (case cs of
           [] \<Rightarrow> Re_Error
         | q # cs' \<Rightarrow>
             if q = CHR ''?'' then
               (case cs' of
                  [] \<Rightarrow> Unmodelled
                | k # cs'' \<Rightarrow>
                    if k = CHR '':'' then re_parse_loop (None, Eps) (fr # stack) cs''
                    else Unmodelled)
             else re_parse_loop (None, Eps) (fr # stack) cs)
      else if c = CHR '')'' then
        (case stack of
           [] \<Rightarrow> Re_Error
         | up # stack' \<Rightarrow> re_parse_loop (fst up, Cat (snd up) (close_frame fr)) stack' cs)
      else if c = CHR ''.'' then re_parse_loop (fst fr, Cat (snd fr) Dot) stack cs
      else if c \<in> set ''*+?{[^$'' then Unmodelled
      else re_parse_loop (fst fr, Cat (snd fr) (Lit c)) stack cs)"

definition re_parse :: "string \<Rightarrow> parsed" where
  "re_parse expr = re_parse_loop (None, Eps) [] expr"

definition at_boundary :: "string \<Rightarrow> nat \<Rightarrow> bool" where
  \<comment> \<open>\<open>\b\<close> at position \<open>i\<close>: a word character on exactly one side\<close>
  "at_boundary s i = ((0 < i \<and> i \<le> length s \<and> is_word (s ! (i - 1))) \<noteq> (i < length s \<and> is_word (s ! i)))"

definition chr_eq :: "bool \<Rightarrow> char \<Rightarrow> char \<Rightarrow> bool" where
  "chr_eq ic c d = (if ic then lower_chr c = lower_chr d else c = d)"

primrec rx_ends :: "bool \<Rightarrow> string \<Rightarrow> rx \<Rightarrow> nat \<Rightarrow> nat list" where
  \<comment> \<open>where a match of the expression that starts at position \<open>i\<close> can end\<close>
  "rx_ends ic s Eps = (\<lambda>i. [i])"
| "rx_ends ic s (Lit c) = (\<lambda>i. if i < length s \<and> chr_eq ic c (s ! i) then [Suc i] else [])"
| "rx_ends ic s Dot = (\<lambda>i. if i < length s \<and> s ! i \<noteq> LF then [Suc i] else [])"
| "rx_ends ic s WordB = (\<lambda>i. if at_boundary s i then [i] else [])"
| "rx_ends ic s (Cat a b) = (\<lambda>i. concat (map (rx_ends ic s b) (rx_ends ic s a i)))"
| "rx_ends ic s (Alt a b) = (\<lambda>i. rx_ends ic s a i @ rx_ends ic s b i)"

definition rx_search :: "bool \<Rightarrow> rx \<Rightarrow> string \<Rightarrow> bool" where
  \<comment> \<open>\<open>pat.search(s) is not None\<close>\<close>
  "rx_search ic r s = list_ex (\<lambda>i. rx_ends ic s r i \<noteq> []) [0..<Suc (length s)]"

definition agrees :: "re_lib \<Rightarrow> bool" where
  "agrees lib =
     (\<forall>expr ic. case re_parse expr of
                  Parsed r \<Rightarrow> lib expr ic = Some (rx_search ic r)
                | Re_Error \<Rightarrow> lib expr ic = None
                | Unmodelled \<Rightarrow> True)"

definition frag_lib :: re_lib where
  \<comment> \<open>a library that agrees; off the fragment it compiles to the pattern found nowhere\<close>
  "frag_lib expr ic =
     (case re_parse expr of
        Parsed r \<Rightarrow> Some (rx_search ic r)
      | Re_Error \<Rightarrow> None
      | Unmodelled \<Rightarrow> Some (\<lambda>s. False))"

definition re_special :: string where
  "re_special = ''()[]{}?*+-|^$.&~# '' @ [BSL, CHR 0x09, LF, CR, CHR 0x0B, CHR 0x0C]"

definition re_escape :: "string \<Rightarrow> string" where
  "re_escape s = concat (map (\<lambda>c. if c \<in> set re_special then [BSL, c] else [c]) s)"


section \<open>The matchers of the workers\<close>

text \<open>
  A matcher is the closure \<open>is_match\<close>, \<open>match_name\<close>, \<open>match_folder\<close> or
  \<open>match_content\<close> of a worker: it answers \<open>Some b\<close>, or \<open>None\<close> where the call raises.
  Building one for a regular expression fails with the library's error; the workers log
  it, set the stop flag and return.
\<close>

type_synonym matcher = "string \<Rightarrow> bool option"

definition whole_expr :: "string \<Rightarrow> string" where
  \<comment> \<open>\<open>rf"\b{pattern}\b"\<close>\<close>
  "whole_expr pattern = [BSL, CHR ''b''] @ pattern @ [BSL, CHR ''b'']"

definition literal_matcher :: "re_lib \<Rightarrow> string \<Rightarrow> bool \<Rightarrow> bool \<Rightarrow> matcher" where
  "literal_matcher lib pattern cs whole =
     (let needle = (if cs then pattern else lower pattern) in
      (\<lambda>line.
         let hay = (if cs then line else lower line) in
         if whole then
           (case lib (whole_expr (re_escape needle)) False of
              None \<Rightarrow> None
            | Some found \<Rightarrow> Some (found hay))
         else Some (contains needle hay)))"

definition make_matcher :: "re_lib \<Rightarrow> string \<Rightarrow> bool \<Rightarrow> bool \<Rightarrow> bool \<Rightarrow> matcher option" where
  \<comment> \<open>the matcher set-up of a worker; \<open>None\<close>: \<open>re.compile\<close> raised \<open>re.error\<close>\<close>
  "make_matcher lib pattern use_regex cs whole =
     (if use_regex then
        (case lib (if \<not> whole then pattern else whole_expr pattern) (\<not> cs) of
           None \<Rightarrow> None
         | Some found \<Rightarrow> Some (\<lambda>line. Some (found line)))
      else Some (literal_matcher lib pattern cs whole))"

definition build_highlight_regex :: "re_lib \<Rightarrow> string \<Rightarrow> bool \<Rightarrow> bool \<Rightarrow> bool \<Rightarrow> (string \<Rightarrow> bool) option" where
  \<comment> \<open>\<open>_build_highlight_regex\<close>: the pattern of the preview, \<open>None\<close> when it does not compile\<close>
  "build_highlight_regex lib pattern use_regex cs whole =
     (let expr = (if use_regex then pattern else re_escape pattern);
          expr = (if whole then [BSL, CHR ''b''] @ ''(?:'' @ expr @ '')'' @ [BSL, CHR ''b''] else expr)
      in lib expr (\<not> cs))"



section \<open>The directory tree\<close>

text \<open>
  The tree under the search directory, as \<open>os.walk\<close> and \<open>os.scandir\<close> see it. A file
  carries its name, what \<open>os.path.getsize\<close> returns (\<open>None\<close> where it raises), the
  text \<open>fmt_time\<close> gives for its modification time and its content (\<open>None\<close> where the
  file cannot be opened). A directory that cannot be listed has \<open>d_listable\<close> false:
  \<open>os.walk\<close> skips it silently and \<open>os.scandir\<close> raises on it. The platform is POSIX:
  the separator is \<open>/\<close>, \<open>fnmatch.fnmatch\<close> is \<open>fnmatchcase\<close> and a hidden entry is one
  whose name starts with a dot.
\<close>

record file_node =
  f_name :: string
  f_size :: "nat option"
  f_mtime :: string
  f_data :: "string option"

datatype dir_node =
  Dir (d_name: string) (d_mtime: string) (d_listable: bool) (d_files: "file_node list")
      (d_dirs: "dir_node list")

definition rstrip_chars :: "string \<Rightarrow> string \<Rightarrow> string" where
  "rstrip_chars chars s = rev (dropWhile (\<lambda>d. d \<in> set chars) (rev s))"

definition path_join :: "string \<Rightarrow> string \<Rightarrow> string" where
  \<comment> \<open>\<open>os.path.join\<close> of two parts\<close>
  "path_join a b =
     (if startswith b ''/'' then b
      else if a = [] \<or> endswith a ''/'' then a @ b
      else a @ ''/'' @ b)"

fun rel_path :: "string list \<Rightarrow> string" where
  \<comment> \<open>the relative path, posix style, of the entry reached from the base through these names\<close>
  "rel_path [] = []"
| "rel_path [n] = n"
| "rel_path (n # ns) = n @ ''/'' @ rel_path ns"

definition is_hidden_path :: "string \<Rightarrow> bool" where
  "is_hidden_path path = startswith (basename (rstrip_chars [BSL, CHR ''/''] path)) ''.''"

definition depth_of :: "string \<Rightarrow> int" where
  \<comment> \<open>\<open>path.rstrip(os.sep).count(os.sep)\<close>\<close>
  "depth_of path = int (length (filter (\<lambda>c. c = CHR ''/'') (rstrip_chr CHR ''/'' path)))"

record search_cfg =
  directory :: string
  include_globs :: "string list"
  exclude_globs :: "string list"
  max_mb :: rat
  depth_limit :: "int option"
  skip_hidden :: bool
  gitignore_rules :: "ignore_rule list"

text \<open>
  \<open>directory\<close> is the search directory after \<open>os.path.abspath\<close>. \<open>max_mb\<close> is the float
  read from the size entry, as the rational it is; the program compares a size with
  \<open>max_mb * 1024 * 1024\<close>, which is exact on floats.
\<close>


section \<open>Traversal: \<open>_walk_with_depth\<close>\<close>

text \<open>
  The generator yields one entry for every directory \<open>os.walk\<close> visits: the directory's
  path, its subdirectories and its files, each list after the pruning by depth, hidden
  names and ignore rules. \<open>os.walk\<close> then descends into the subdirectories left in the
  list, which the consumer of the generator may have pruned further in place before it
  asks for the next entry: \<open>keeps\<close> is that pruning, a test on the name. The model also
  keeps, for each entry, the names that lead from the base to the directory: the relative
  path \<open>os.path.relpath\<close> computes.
\<close>

type_synonym entry = "string \<times> string list \<times> dir_node list \<times> file_node list"

definition depth_reached :: "search_cfg \<Rightarrow> string \<Rightarrow> bool" where
  "depth_reached cfg dpath =
     (case depth_limit cfg of
        None \<Rightarrow> False
      | Some limit \<Rightarrow> depth_of dpath - depth_of (directory cfg) \<ge> limit)"

definition dir_yielded :: "search_cfg \<Rightarrow> string \<Rightarrow> string list \<Rightarrow> dir_node \<Rightarrow> bool" where
  "dir_yielded cfg dpath rel d =
     (\<not> depth_reached cfg dpath
      \<and> \<not> (skip_hidden cfg \<and> is_hidden_path (path_join dpath (d_name d)))
      \<and> \<not> (gitignore_rules cfg \<noteq> []
           \<and> gitignore_ignored (rel_path (rel @ [d_name d])) True (gitignore_rules cfg)))"

definition file_yielded :: "search_cfg \<Rightarrow> string \<Rightarrow> string list \<Rightarrow> file_node \<Rightarrow> bool" where
  "file_yielded cfg dpath rel f =
     (\<not> (skip_hidden cfg \<and> is_hidden_path (path_join dpath (f_name f)))
      \<and> \<not> (gitignore_rules cfg \<noteq> []
           \<and> gitignore_ignored (rel_path (rel @ [f_name f])) False (gitignore_rules cfg)))"

fun walk_dir :: "search_cfg \<Rightarrow> (string \<Rightarrow> bool) \<Rightarrow> string \<Rightarrow> string list \<Rightarrow> dir_node \<Rightarrow> entry list"
  and walk_dirs :: "search_cfg \<Rightarrow> (string \<Rightarrow> bool) \<Rightarrow> string \<Rightarrow> string list \<Rightarrow> dir_node list \<Rightarrow> entry list"
where
  "walk_dir cfg keeps dpath rel (Dir n mt listable files dirs) =
     (if \<not> listable then []
      else (dpath, rel, filter (dir_yielded cfg dpath rel) dirs, filter (file_yielded cfg dpath rel) files)
           # walk_dirs cfg keeps dpath rel dirs)"
| "walk_dirs cfg keeps dpath rel [] = []"
| "walk_dirs cfg keeps dpath rel (d # ds) =
     (if dir_yielded cfg dpath rel d \<and> keeps (d_name d)
      then walk_dir cfg keeps (path_join dpath (d_name d)) (rel @ [d_name d]) d
      else [])
     @ walk_dirs cfg keeps dpath rel ds"

definition walk_with_depth :: "search_cfg \<Rightarrow> (string \<Rightarrow> bool) \<Rightarrow> dir_node \<Rightarrow> entry list" where
  "walk_with_depth cfg keeps tree = walk_dir cfg keeps (directory cfg) [] tree"


section \<open>The state of a run\<close>

text \<open>
  The queues, counters and the stop flag of \<open>TabState\<close> that a worker writes. The consumer
  may set the stop flag at any moment; \<open>cancel_in = Some k\<close> is the run in which it does
  so after the worker has read the flag \<open>k\<close> more times, \<open>None\<close> the run it never cancels.
  The run is not paused (a pause only delays the worker). \<open>uncaught\<close> records that an
  exception has ended the worker's thread. The text of a library error is not modelled,
  so a log line is a value of \<open>log_line\<close>.
\<close>

datatype log_line =
  Scanning string | Invalid_regex | Invalid_filename_regex | Invalid_folder_regex
  | Invalid_content_regex | Rg_fallback

datatype match_record =
  Content string nat string
  | File_Name string nat string bool
  | Folder_Name string string bool nat

fun rec_path :: "match_record \<Rightarrow> string" where
  "rec_path (Content p i t) = p"
| "rec_path (File_Name p sz mt cf) = p"
| "rec_path (Folder_Name p mt cf n) = p"

record run_state =
  log_q :: "log_line list"
  result_q :: "match_record list"
  files_scanned :: nat
  matches_found :: nat
  stop_event :: bool
  cancel_in :: "nat option"
  uncaught :: bool

definition fresh :: "nat option \<Rightarrow> run_state" where
  \<comment> \<open>the state \<open>start_search_for_tab\<close> hands to the worker\<close>
  "fresh c = \<lparr>log_q = [], result_q = [], files_scanned = 0, matches_found = 0,
              stop_event = False, cancel_in = c, uncaught = False\<rparr>"

definition poll :: "run_state \<Rightarrow> bool \<times> run_state" where
  \<comment> \<open>\<open>state.stop_event.is_set()\<close>\<close>
  "poll st =
     (if stop_event st then (True, st)
      else case cancel_in st of
             None \<Rightarrow> (False, st)
           | Some 0 \<Rightarrow> (True, st\<lparr>stop_event := True\<rparr>)
           | Some (Suc k) \<Rightarrow> (False, st\<lparr>cancel_in := Some k\<rparr>))"

definition emit :: "match_record \<Rightarrow> run_state \<Rightarrow> run_state" where
  \<comment> \<open>\<open>state.matches_found += 1; state.result_q.put(...)\<close>\<close>
  "emit r st = st\<lparr>matches_found := matches_found st + 1, result_q := result_q st @ [r]\<rparr>"

definition count_scanned :: "run_state \<Rightarrow> run_state" where
  "count_scanned st = st\<lparr>files_scanned := files_scanned st + 1\<rparr>"


section \<open>What the workers share\<close>

definition excluded :: "search_cfg \<Rightarrow> string \<Rightarrow> bool" where
  "excluded cfg name =
     (exclude_globs cfg \<noteq> [] \<and> list_ex (\<lambda>g. fnmatchcase name g) (exclude_globs cfg))"

definition name_filtered :: "search_cfg \<Rightarrow> string \<Rightarrow> bool" where
  \<comment> \<open>the include and exclude globs drop the file name\<close>
  "name_filtered cfg fname =
     ((include_globs cfg \<noteq> [] \<and> \<not> list_ex (\<lambda>g. fnmatchcase fname g) (include_globs cfg))
      \<or> excluded cfg fname)"

definition size_capped :: "search_cfg \<Rightarrow> nat \<Rightarrow> bool" where
  "size_capped cfg sz = (max_mb cfg > 0 \<and> of_nat sz > max_mb cfg * 1024 * 1024)"

definition is_binary_quick :: "file_node \<Rightarrow> bool" where
  "is_binary_quick f = (case f_data f of None \<Rightarrow> True | Some bytes \<Rightarrow> NUL \<in> set (take 2048 bytes))"

fun text_lines :: "string \<Rightarrow> string \<Rightarrow> string list" where
  \<comment> \<open>the lines a file opened for text gives, with the line read so far: every line
      terminator is read as a line feed\<close>
  "text_lines cur [] = (if cur = [] then [] else [cur])"
| "text_lines cur [c] = (if c = LF \<or> c = CR then [cur @ [LF]] else [cur @ [c]])"
| "text_lines cur (c # d # cs) =
     (if c = CR \<and> d = LF then (cur @ [LF]) # text_lines [] cs
      else if c = LF \<or> c = CR then (cur @ [LF]) # text_lines [] (d # cs)
      else text_lines (cur @ [c]) (d # cs))"

fun content_lines :: "matcher \<Rightarrow> string list \<Rightarrow> run_state \<Rightarrow> bool \<times> run_state" where
  \<comment> \<open>the line loop of a content filter: true at the first line that matches; the loop
      is left when the stop flag is set and when the matcher raises\<close>
  "content_lines mc [] st = (False, st)"
| "content_lines mc (line # lines) st =
     (case poll st of
        (True, st1) \<Rightarrow> (False, st1)
      | (False, st1) \<Rightarrow>
          (case mc line of
             None \<Rightarrow> (False, st1)
           | Some True \<Rightarrow> (True, st1)
           | Some False \<Rightarrow> content_lines mc lines st1))"

definition content_matcher :: "re_lib \<Rightarrow> bool \<Rightarrow> string \<Rightarrow> bool \<Rightarrow> bool \<Rightarrow> bool \<Rightarrow> matcher option" where
  \<comment> \<open>the optional content matcher of the file and folder workers\<close>
  "content_matcher lib content_filter_on pattern use_regex cs whole =
     (if content_filter_on then make_matcher lib pattern use_regex cs whole
      else Some (\<lambda>line. Some True))"


section \<open>The content worker: \<open>_worker_text\<close>, native scanner\<close>

fun scan_lines :: "matcher \<Rightarrow> bool \<Rightarrow> string \<Rightarrow> nat \<Rightarrow> string list \<Rightarrow> run_state \<Rightarrow> run_state" where
  "scan_lines is_match first fpath i [] st = st"
| "scan_lines is_match first fpath i (line # lines) st =
     (case poll st of
        (True, st1) \<Rightarrow> st1
      | (False, st1) \<Rightarrow>
          (case is_match line of
             None \<Rightarrow> st1
           | Some False \<Rightarrow> scan_lines is_match first fpath (Suc i) lines st1
           | Some True \<Rightarrow>
               let st2 = emit (Content fpath i (rstrip_chr LF line)) st1
               in if first then st2 else scan_lines is_match first fpath (Suc i) lines st2))"

definition text_file :: "matcher \<Rightarrow> search_cfg \<Rightarrow> bool \<Rightarrow> string \<Rightarrow> string \<Rightarrow> file_node \<Rightarrow> run_state \<Rightarrow> run_state" where
  "text_file is_match cfg first filetype dpath f st =
     (if filetype \<noteq> ''All'' \<and> \<not> endswith (f_name f) filetype then st
      else if name_filtered cfg (f_name f) then st
      else case f_size f of
             None \<Rightarrow> st
           | Some sz \<Rightarrow>
               if size_capped cfg sz then st
               else
                 let st1 = count_scanned st in
                 if is_binary_quick f then st1
                 else case f_data f of
                        None \<Rightarrow> st1
                      | Some data \<Rightarrow>
                          scan_lines is_match first (path_join dpath (f_name f)) 1 (text_lines [] data) st1)"

fun text_files :: "matcher \<Rightarrow> search_cfg \<Rightarrow> bool \<Rightarrow> string \<Rightarrow> string \<Rightarrow> file_node list \<Rightarrow> run_state \<Rightarrow> run_state" where
  "text_files is_match cfg first filetype dpath [] st = st"
| "text_files is_match cfg first filetype dpath (f # fs) st =
     (case poll st of
        (True, st1) \<Rightarrow> st1
      | (False, st1) \<Rightarrow>
          text_files is_match cfg first filetype dpath fs (text_file is_match cfg first filetype dpath f st1))"

fun text_entries :: "matcher \<Rightarrow> search_cfg \<Rightarrow> bool \<Rightarrow> string \<Rightarrow> entry list \<Rightarrow> run_state \<Rightarrow> run_state" where
  "text_entries is_match cfg first filetype [] st = st"
| "text_entries is_match cfg first filetype ((dpath, rel, dirs, files) # es) st =
     (case poll st of
        (True, st1) \<Rightarrow> st1
      | (False, st1) \<Rightarrow>
          text_entries is_match cfg first filetype es
            (text_files is_match cfg first filetype dpath files (st1\<lparr>log_q := log_q st1 @ [Scanning dpath]\<rparr>)))"

definition worker_text :: "re_lib \<Rightarrow> search_cfg \<Rightarrow> bool \<Rightarrow> bool \<Rightarrow> string \<Rightarrow> bool \<Rightarrow> bool \<Rightarrow> bool \<Rightarrow> string \<Rightarrow> dir_node \<Rightarrow> run_state \<Rightarrow> run_state" where
  \<comment> \<open>\<open>rg_missing\<close>: the external backend was asked for and is not installed\<close>
  "worker_text lib cfg rg_missing first pattern use_regex cs whole filetype tree st =
     (let st0 = (if rg_missing then st\<lparr>log_q := log_q st @ [Rg_fallback]\<rparr> else st) in
      case make_matcher lib pattern use_regex cs whole of
        None \<Rightarrow> st0\<lparr>log_q := log_q st0 @ [Invalid_regex], stop_event := True\<rparr>
      | Some is_match \<Rightarrow>
          (text_entries is_match cfg first filetype
             (walk_with_depth cfg (\<lambda>n. \<not> excluded cfg n) tree) st0)\<lparr>stop_event := True\<rparr>)"


section \<open>The folder worker: \<open>_worker_folder\<close>\<close>

fun fcm_loop :: "matcher \<Rightarrow> search_cfg \<Rightarrow> bool \<Rightarrow> string \<Rightarrow> string list \<Rightarrow> file_node list \<Rightarrow> nat \<Rightarrow> run_state \<Rightarrow> (bool \<times> nat) \<times> run_state" where
  \<comment> \<open>the loop of \<open>folder_content_matches\<close> over the files directly inside the folder\<close>
  "fcm_loop mc cfg cf path rel [] seen st = ((False, seen), st)"
| "fcm_loop mc cfg cf path rel (f # fs) seen st =
     (case poll st of
        (True, st1) \<Rightarrow> ((False, seen), st1)
      | (False, st1) \<Rightarrow>
          if skip_hidden cfg \<and> is_hidden_path (path_join path (f_name f))
            then fcm_loop mc cfg cf path rel fs seen st1
          else if name_filtered cfg (f_name f) then fcm_loop mc cfg cf path rel fs seen st1
          else if gitignore_rules cfg \<noteq> []
                  \<and> gitignore_ignored (rel_path (rel @ [f_name f])) False (gitignore_rules cfg)
            then fcm_loop mc cfg cf path rel fs seen st1
          else case f_size f of
                 None \<Rightarrow> fcm_loop mc cfg cf path rel fs seen st1
               | Some sz \<Rightarrow>
                   if size_capped cfg sz then fcm_loop mc cfg cf path rel fs seen st1
                   else if \<not> cf then fcm_loop mc cfg cf path rel fs (Suc seen) st1
                   else if is_binary_quick f then fcm_loop mc cfg cf path rel fs (Suc seen) st1
                   else case f_data f of
                          None \<Rightarrow> fcm_loop mc cfg cf path rel fs (Suc seen) st1
                        | Some data \<Rightarrow>
                            (case content_lines mc (text_lines [] data) st1 of
                               (True, st2) \<Rightarrow> ((True, Suc seen), st2)
                             | (False, st2) \<Rightarrow> fcm_loop mc cfg cf path rel fs (Suc seen) st2))"

definition folder_content_matches :: "matcher \<Rightarrow> search_cfg \<Rightarrow> bool \<Rightarrow> string \<Rightarrow> string list \<Rightarrow> dir_node \<Rightarrow> run_state \<Rightarrow> (bool \<times> nat) \<times> run_state" where
  "folder_content_matches mc cfg cf path rel d st =
     (if \<not> d_listable d then ((False, 0), st)
      else fcm_loop mc cfg cf path rel (d_files d) 0 st)"

fun folder_dirs :: "matcher \<Rightarrow> matcher \<Rightarrow> search_cfg \<Rightarrow> bool \<Rightarrow> string \<Rightarrow> string list \<Rightarrow> dir_node list \<Rightarrow> run_state \<Rightarrow> run_state" where
  "folder_dirs mf mc cfg cf dpath rel [] st = st"
| "folder_dirs mf mc cfg cf dpath rel (d # ds) st =
     (case poll st of
        (True, st1) \<Rightarrow> st1
      | (False, st1) \<Rightarrow>
          let st2 = count_scanned st1 in
          case mf (d_name d) of
            None \<Rightarrow> st2\<lparr>uncaught := True\<rparr>
          | Some False \<Rightarrow> folder_dirs mf mc cfg cf dpath rel ds st2
          | Some True \<Rightarrow>
              (case folder_content_matches mc cfg cf (path_join dpath (d_name d)) (rel @ [d_name d]) d st2 of
                 ((matched, files_seen), st3) \<Rightarrow>
                   if cf \<and> \<not> matched then folder_dirs mf mc cfg cf dpath rel ds st3
                   else folder_dirs mf mc cfg cf dpath rel ds
                          (emit (Folder_Name (path_join dpath (d_name d)) (d_mtime d) cf files_seen) st3)))"

fun folder_entries :: "matcher \<Rightarrow> matcher \<Rightarrow> search_cfg \<Rightarrow> bool \<Rightarrow> entry list \<Rightarrow> run_state \<Rightarrow> run_state" where
  "folder_entries mf mc cfg cf [] st = st"
| "folder_entries mf mc cfg cf ((dpath, rel, dirs, files) # es) st =
     (if uncaught st then st
      else case poll st of
             (True, st1) \<Rightarrow> st1
           | (False, st1) \<Rightarrow>
               folder_entries mf mc cfg cf es
                 (folder_dirs mf mc cfg cf dpath rel (filter (\<lambda>d. \<not> excluded cfg (d_name d)) dirs)
                    (st1\<lparr>log_q := log_q st1 @ [Scanning dpath]\<rparr>)))"

definition worker_folder :: "re_lib \<Rightarrow> search_cfg \<Rightarrow> string \<Rightarrow> bool \<Rightarrow> bool \<Rightarrow> bool \<Rightarrow> bool \<Rightarrow> string \<Rightarrow> bool \<Rightarrow> bool \<Rightarrow> bool \<Rightarrow> dir_node \<Rightarrow> run_state \<Rightarrow> run_state" where
  "worker_folder lib cfg folder_pat folder_regex folder_case folder_whole
       content_filter_on content_pat content_regex content_case content_whole tree st =
     (case make_matcher lib folder_pat folder_regex folder_case folder_whole of
        None \<Rightarrow> st\<lparr>log_q := log_q st @ [Invalid_folder_regex], stop_event := True\<rparr>
      | Some mf \<Rightarrow>
          (case content_matcher lib content_filter_on content_pat content_regex content_case content_whole of
             None \<Rightarrow> st\<lparr>log_q := log_q st @ [Invalid_content_regex], stop_event := True\<rparr>
           | Some mc \<Rightarrow>
               let st' = folder_entries mf mc cfg content_filter_on
                           (walk_with_depth cfg (\<lambda>n. \<not> excluded cfg n) tree) st
               in if uncaught st' then st' else st'\<lparr>stop_event := True\<rparr>))"


section \<open>The file worker: \<open>_worker_file\<close>\<close>

definition file_one :: "matcher \<Rightarrow> matcher \<Rightarrow> search_cfg \<Rightarrow> bool \<Rightarrow> string \<Rightarrow> file_node \<Rightarrow> run_state \<Rightarrow> run_state" where
  "file_one mn mc cfg cf dpath f st =
     (if name_filtered cfg (f_name f) then st
      else case f_size f of
             None \<Rightarrow> st
           | Some sz \<Rightarrow>
               if size_capped cfg sz then st
               else
                 let st1 = count_scanned st in
                 case mn (f_name f) of
                   None \<Rightarrow> st1\<lparr>uncaught := True\<rparr>
                 | Some False \<Rightarrow> st1
                 | Some True \<Rightarrow>
                     if \<not> cf then emit (File_Name (path_join dpath (f_name f)) sz (f_mtime f) cf) st1
                     else if is_binary_quick f then st1
                     else case f_data f of
                            None \<Rightarrow> st1
                          | Some data \<Rightarrow>
                              (case content_lines mc (text_lines [] data) st1 of
                                 (True, st2) \<Rightarrow>
                                   emit (File_Name (path_join dpath (f_name f)) sz (f_mtime f) cf) st2
                               | (False, st2) \<Rightarrow> st2))"

fun file_files :: "matcher \<Rightarrow> matcher \<Rightarrow> search_cfg \<Rightarrow> bool \<Rightarrow> string \<Rightarrow> file_node list \<Rightarrow> run_state \<Rightarrow> run_state" where
  "file_files mn mc cfg cf dpath [] st = st"
| "file_files mn mc cfg cf dpath (f # fs) st =
     (if uncaught st then st
      else case poll st of
             (True, st1) \<Rightarrow> st1
           | (False, st1) \<Rightarrow> file_files mn mc cfg cf dpath fs (file_one mn mc cfg cf dpath f st1))"

fun file_entries :: "matcher \<Rightarrow> matcher \<Rightarrow> search_cfg \<Rightarrow> bool \<Rightarrow> entry list \<Rightarrow> run_state \<Rightarrow> run_state" where
  "file_entries mn mc cfg cf [] st = st"
| "file_entries mn mc cfg cf ((dpath, rel, dirs, files) # es) st =
     (if uncaught st then st
      else case poll st of
             (True, st1) \<Rightarrow> st1
           | (False, st1) \<Rightarrow>
               file_entries mn mc cfg cf es
                 (file_files mn mc cfg cf dpath files (st1\<lparr>log_q := log_q st1 @ [Scanning dpath]\<rparr>)))"

definition worker_file :: "re_lib \<Rightarrow> search_cfg \<Rightarrow> string \<Rightarrow> bool \<Rightarrow> bool \<Rightarrow> bool \<Rightarrow> bool \<Rightarrow> string \<Rightarrow> bool \<Rightarrow> bool \<Rightarrow> bool \<Rightarrow> dir_node \<Rightarrow> run_state \<Rightarrow> run_state" where
  "worker_file lib cfg fname_pat fname_regex fname_case fname_whole
       content_filter_on content_pat content_regex content_case content_whole tree st =
     (case make_matcher lib fname_pat fname_regex fname_case fname_whole of
        None \<Rightarrow> st\<lparr>log_q := log_q st @ [Invalid_filename_regex], stop_event := True\<rparr>
      | Some mn \<Rightarrow>
          (case content_matcher lib content_filter_on content_pat content_regex content_case content_whole of
             None \<Rightarrow> st\<lparr>log_q := log_q st @ [Invalid_content_regex], stop_event := True\<rparr>
           | Some mc \<Rightarrow>
               let st' = file_entries mn mc cfg content_filter_on
                           (walk_with_depth cfg (\<lambda>n. \<not> excluded cfg n) tree) st
               in if uncaught st' then st' else st'\<lparr>stop_event := True\<rparr>))"


section \<open>Notions used to state the properties\<close>

definition lits :: "rx \<Rightarrow> string \<Rightarrow> rx" where
  \<comment> \<open>an expression followed by the characters of a word, each a literal\<close>
  "lits r w = foldl (\<lambda>r c. Cat r (Lit c)) r w"

definition occurs_at :: "string \<Rightarrow> string \<Rightarrow> nat \<Rightarrow> bool" where
  \<comment> \<open>the word stands in the string at position \<open>i\<close>\<close>
  "occurs_at w s i = (i + length w \<le> length s \<and> take (length w) (drop i s) = w)"

definition fold_case :: "bool \<Rightarrow> string \<Rightarrow> string" where
  \<comment> \<open>\<open>s if case else s.lower()\<close>\<close>
  "fold_case cs s = (if cs then s else lower s)"

definition entry_paths :: "entry list \<Rightarrow> string list" where
  \<comment> \<open>the paths of the files the entries hold\<close>
  "entry_paths es = concat (map (\<lambda>(dpath, rel, dirs, files). map (\<lambda>f. path_join dpath (f_name f)) files) es)"

definition records_of :: "string \<Rightarrow> run_state \<Rightarrow> match_record list" where
  "records_of p st = filter (\<lambda>r. rec_path r = p) (result_q st)"

definition all_skipped :: "search_cfg \<Rightarrow> dir_node \<Rightarrow> bool" where
  \<comment> \<open>every file directly inside is binary (or unreadable) or dropped by the size cap\<close>
  "all_skipped cfg d =
     list_all (\<lambda>f. is_binary_quick f \<or> (case f_size f of None \<Rightarrow> True | Some sz \<Rightarrow> size_capped cfg sz))
       (d_files d)"



section \<open>Example trees\<close>

text \<open>
  Three small trees under \<open>/r\<close>. The first holds \<open>a.txt\<close> with the lines \<open>hello\<close>,
  \<open>world\<close> and \<open>hello again\<close>. The second holds \<open>esc.txt\<close> with the line \<open>a\b\<close>
  (a backslash between the letters). The third holds the directory \<open>sub\<close> with the text
  file \<open>c.txt\<close> and the directory \<open>subbin\<close> with a binary file and a text file of nine
  bytes, more than the cap of four bytes that \<open>ex_cap_cfg\<close> sets.
\<close>

definition ex_cfg :: search_cfg where
  "ex_cfg = \<lparr>directory = ''/r'', include_globs = [], exclude_globs = [], max_mb = 0,
             depth_limit = None, skip_hidden = False, gitignore_rules = []\<rparr>"

definition ex_cap_cfg :: search_cfg where
  "ex_cap_cfg = ex_cfg\<lparr>max_mb := 1 / 262144\<rparr>"

definition ex_file :: "string \<Rightarrow> string \<Rightarrow> file_node" where
  "ex_file n d = \<lparr>f_name = n, f_size = Some (length d), f_mtime = ''t'', f_data = Some d\<rparr>"

definition ex_text_tree :: dir_node where
  "ex_text_tree =
     Dir ''r'' ''t'' True
       [ex_file ''a.txt'' (''hello'' @ [LF] @ ''world'' @ [LF] @ ''hello again'' @ [LF])] []"

definition ex_esc_tree :: dir_node where
  "ex_esc_tree = Dir ''r'' ''t'' True [ex_file ''esc.txt'' (''a'' @ [BSL] @ ''b'' @ [LF])] []"

definition ex_folder_tree :: dir_node where
  "ex_folder_tree =
     Dir ''r'' ''t'' True []
       [Dir ''sub'' ''t'' True [ex_file ''c.txt'' (''hi'' @ [LF])] [],
        Dir ''subbin'' ''t'' True
          [ex_file ''y.bin'' (NUL # ''hi''),
           (ex_file ''big.log'' (''hi'' @ [LF]))\<lparr>f_size := Some 9\<rparr>] []]"


section \<open>Properties of the ignore rules\<close>

lemma ignored_loop_snoc:
  "ignored_loop rel is_dir acc (rules @ [r]) =
     (if rule_applies rel is_dir r then \<not> fst (snd r) else ignored_loop rel is_dir acc rules)"
proof (induction rules arbitrary: acc)
  case Nil
  show ?case by (cases r rule: prod_cases3) (simp add: rule_applies_def)
next
  case (Cons q rules)
  show ?case
  proof (cases q rule: prod_cases3)
    case (fields pat negated dir_only)
    show ?thesis
      unfolding fields append_Cons ignored_loop.simps Cons.IH by simp
  qed
qed

lemma ignored_loop_unmatched:
  "(\<forall>r \<in> set rules. \<not> rule_applies rel is_dir r) \<Longrightarrow> ignored_loop rel is_dir acc rules = acc"
proof (induction rules arbitrary: acc)
  case Nil
  show ?case by simp
next
  case (Cons q rules)
  then show ?case by (cases q rule: prod_cases3) (auto simp: rule_applies_def)
qed

lemma gitignore_ignored_loop: "gitignore_ignored rel is_dir rules = ignored_loop rel is_dir False rules"
  by (simp add: gitignore_ignored_def)

text \<open>
  C3. The rules are evaluated in order and the last rule that applies decides; a path no
  rule applies to is not ignored. With the ignore file \<open>*.log\<close>, \<open>!keep.log\<close> the path
  \<open>app.log\<close> is ignored and \<open>keep.log\<close> is not.
\<close>

theorem ignore_last_match_wins:
  "gitignore_ignored ''app.log'' False (load_gitignore_rules (Some [''*.log'' @ [LF], ''!keep.log'' @ [LF]]))
   \<and> \<not> gitignore_ignored ''keep.log'' False
         (load_gitignore_rules (Some [''*.log'' @ [LF], ''!keep.log'' @ [LF]]))
   \<and> (\<forall>rel is_dir rules.
         (\<forall>r \<in> set rules. \<not> rule_applies rel is_dir r) \<longrightarrow> \<not> gitignore_ignored rel is_dir rules)
   \<and> (\<forall>rel is_dir rules r.
         gitignore_ignored rel is_dir (rules @ [r]) =
           (if rule_applies rel is_dir r then \<not> fst (snd r) else gitignore_ignored rel is_dir rules))"
proof -
  have a: "gitignore_ignored ''app.log'' False
             (load_gitignore_rules (Some [''*.log'' @ [LF], ''!keep.log'' @ [LF]]))"
    by code_simp
  have b: "\<not> gitignore_ignored ''keep.log'' False
             (load_gitignore_rules (Some [''*.log'' @ [LF], ''!keep.log'' @ [LF]]))"
    by code_simp
  have c: "\<forall>rel is_dir rules.
         (\<forall>r \<in> set rules. \<not> rule_applies rel is_dir r) \<longrightarrow> \<not> gitignore_ignored rel is_dir rules"
    by (simp add: gitignore_ignored_loop ignored_loop_unmatched)
  have d: "\<forall>rel is_dir rules r.
         gitignore_ignored rel is_dir (rules @ [r]) =
           (if rule_applies rel is_dir r then \<not> fst (snd r) else gitignore_ignored rel is_dir rules)"
    by (simp only: gitignore_ignored_loop ignored_loop_snoc) simp
  from a b c d show ?thesis by blast
qed

theorem ignore_last_match_wins_witness:
  "\<not> gitignore_ignored ''README.md'' False [(''*.log'', False, False), (''keep.log'', True, False)]
   \<and> gitignore_ignored ''keep.log'' False
       ([(''*.log'', False, False), (''keep.log'', True, False)] @ [(''k*'', False, False)])"
proof -
  have none: "\<forall>r \<in> set [(''*.log'', False, False), (''keep.log'', True, False)].
                \<not> rule_applies ''README.md'' False r"
    by code_simp
  have last: "rule_applies ''keep.log'' False (''k*'', False, False)"
    by code_simp
  from ignore_last_match_wins none
  have one: "\<not> gitignore_ignored ''README.md'' False [(''*.log'', False, False), (''keep.log'', True, False)]"
    by blast
  from ignore_last_match_wins
  have "gitignore_ignored ''keep.log'' False
          ([(''*.log'', False, False), (''keep.log'', True, False)] @ [(''k*'', False, False)]) =
        (if rule_applies ''keep.log'' False (''k*'', False, False) then \<not> fst (snd (''k*'', False, False))
         else gitignore_ignored ''keep.log'' False [(''*.log'', False, False), (''keep.log'', True, False)])"
    by blast
  with last one show ?thesis by simp
qed

text \<open>
  C4. The line \<open>node_modules/\<close> is parsed into the directory-only rule with the pattern
  \<open>node_modules/**\<close>. That pattern holds a separator, so it is matched against the whole
  relative path, and the path \<open>node_modules\<close> of the named directory does not match it:
  the directory itself is not ignored. A directory beneath it is ignored, and a file
  beneath it is not, the rule being skipped for a candidate that is not a directory.
\<close>

theorem dir_rule_misses_named_directory:
  "load_gitignore_rules (Some [''node_modules/'' @ [LF]]) = [(''node_modules/**'', False, True)]
   \<and> gitignore_ignored ''node_modules'' True [(''node_modules/**'', False, True)] = False
   \<and> gitignore_ignored ''node_modules/pkg'' True [(''node_modules/**'', False, True)] = True
   \<and> gitignore_ignored ''node_modules/index.js'' False [(''node_modules/**'', False, True)] = False"
  by code_simp


section \<open>Properties of the exclude filters\<close>

lemma exclude_filters_append: "exclude_filters (gs @ hs) = exclude_filters gs @ exclude_filters hs"
  by (induction gs) simp_all

lemma exclude_filters_concat: "exclude_filters gs = concat (map (\<lambda>g. exclude_filters [g]) gs)"
  by (induction gs) simp_all

lemma glob_list_nonempty: "g \<in> set (glob_list entry) \<Longrightarrow> g \<noteq> []"
  by (auto simp: glob_list_def)

text \<open>
  C9. The filters appended for the exclude globs are the filters of each glob, in order.
  An exclude glob of a run with no wildcard and no separator gives two negated filters,
  \<open>!name\<close> and \<open>!**/name/**\<close>; one with a wildcard or a separator gives the one filter
  \<open>!glob\<close>.
\<close>

theorem exclude_glob_filters:
  assumes "g \<in> set (glob_list entry)"
  shows "exclude_filters (glob_list entry) = concat (map (\<lambda>g. exclude_filters [g]) (glob_list entry))
    \<and> exclude_filters [g] =
        (if has_wildcards g then [''--glob'', ''!'' @ g]
         else [''--glob'', ''!'' @ g, ''--glob'', ''!**/'' @ g @ ''/**''])"
proof -
  from assms have "g \<noteq> []" by (rule glob_list_nonempty)
  then have "exclude_filters [g] =
        (if has_wildcards g then [''--glob'', ''!'' @ g]
         else [''--glob'', ''!'' @ g, ''--glob'', ''!**/'' @ g @ ''/**''])"
    by simp
  moreover have "exclude_filters (glob_list entry) =
      concat (map (\<lambda>g. exclude_filters [g]) (glob_list entry))"
    by (rule exclude_filters_concat)
  ultimately show ?thesis by simp
qed

theorem exclude_glob_filters_witness:
  "glob_list ''.git; *.pyc ;;build/out'' = [''.git'', ''*.pyc'', ''build/out'']
   \<and> exclude_filters [''.git''] = [''--glob'', ''!.git'', ''--glob'', ''!**/.git/**'']
   \<and> exclude_filters [''*.pyc''] = [''--glob'', ''!*.pyc'']
   \<and> exclude_filters (glob_list ''.git; *.pyc ;;build/out'') =
        [''--glob'', ''!.git'', ''--glob'', ''!**/.git/**'', ''--glob'', ''!*.pyc'',
         ''--glob'', ''!build/out'']"
proof -
  have gl: "glob_list ''.git; *.pyc ;;build/out'' = [''.git'', ''*.pyc'', ''build/out'']"
    by code_simp
  have m1: "''.git'' \<in> set (glob_list ''.git; *.pyc ;;build/out'')"
    and m2: "''*.pyc'' \<in> set (glob_list ''.git; *.pyc ;;build/out'')"
    by (simp_all add: gl)
  have w1: "\<not> has_wildcards ''.git''" and w2: "has_wildcards ''*.pyc''"
    by code_simp+
  have w3: "has_wildcards ''build/out''"
    by code_simp
  from exclude_glob_filters [OF m1] w1
  have e1: "exclude_filters [''.git''] = [''--glob'', ''!.git'', ''--glob'', ''!**/.git/**'']"
    by simp
  from exclude_glob_filters [OF m2] w2
  have e2: "exclude_filters [''*.pyc''] = [''--glob'', ''!*.pyc'']"
    by simp
  have e3: "exclude_filters [''build/out''] = [''--glob'', ''!build/out'']"
    using w3 by simp
  from exclude_glob_filters [OF m1]
  have "exclude_filters (glob_list ''.git; *.pyc ;;build/out'') =
      concat (map (\<lambda>g. exclude_filters [g]) (glob_list ''.git; *.pyc ;;build/out''))"
    by blast
  then have e4: "exclude_filters (glob_list ''.git; *.pyc ;;build/out'') =
      exclude_filters [''.git''] @ exclude_filters [''*.pyc''] @ exclude_filters [''build/out'']"
    by (simp only: gl list.map concat.simps append_Nil2)
  show ?thesis
    using gl e1 e2 e3 e4 by simp
qed


section \<open>Properties of the regular expressions\<close>

lemma agrees_frag_lib: "agrees frag_lib"
  by (simp add: agrees_def frag_lib_def split: parsed.split)

lemma special_not_alnum: "c \<in> set re_special \<Longrightarrow> \<not> is_ascii_alnum c \<and> c \<noteq> CHR ''b''"
  by (auto simp: re_special_def is_ascii_alnum_def in_range_def ord_def)

lemma not_special_plain:
  "c \<notin> set re_special \<Longrightarrow>
     c \<noteq> BSL \<and> c \<noteq> CHR ''|'' \<and> c \<noteq> CHR ''('' \<and> c \<noteq> CHR '')'' \<and> c \<noteq> CHR ''.'' \<and> c \<notin> set ''*+?{[^$''"
  by (auto simp: re_special_def)

lemma parse_escaped_chr:
  "re_parse_loop fr stack ((if c \<in> set re_special then [BSL, c] else [c]) @ rest) =
   re_parse_loop (fst fr, Cat (snd fr) (Lit c)) stack rest"
proof (cases "c \<in> set re_special")
  case True
  with special_not_alnum [OF True] show ?thesis by simp
next
  case False
  with not_special_plain [OF False] show ?thesis by simp
qed

lemma parse_escaped:
  "re_parse_loop fr stack (re_escape w @ rest) = re_parse_loop (fst fr, lits (snd fr) w) stack rest"
proof (induction w arbitrary: fr)
  case Nil
  show ?case by (simp add: re_escape_def lits_def)
next
  case (Cons c w)
  have "re_escape (c # w) @ rest = (if c \<in> set re_special then [BSL, c] else [c]) @ (re_escape w @ rest)"
    by (simp add: re_escape_def)
  then show ?case
    by (simp only: parse_escaped_chr Cons.IH) (simp add: lits_def)
qed

lemma parse_whole_literal:
  "re_parse (whole_expr (re_escape w)) = Parsed (Cat (lits (Cat Eps WordB) w) WordB)"
proof -
  have "re_parse (whole_expr (re_escape w)) =
        re_parse_loop (None, Cat Eps WordB) [] (re_escape w @ [BSL, CHR ''b''])"
    by (simp add: re_parse_def whole_expr_def)
  also have "\<dots> = re_parse_loop (None, lits (Cat Eps WordB) w) [] [BSL, CHR ''b'']"
    by (simp add: parse_escaped)
  also have "\<dots> = Parsed (Cat (lits (Cat Eps WordB) w) WordB)"
    by (simp add: close_frame_def)
  finally show ?thesis .
qed

lemma occurs_at_snoc:
  "occurs_at (w @ [c]) s i = (occurs_at w s i \<and> i + length w < length s \<and> s ! (i + length w) = c)"
proof (cases "i + length w < length s")
  case True
  then have "take (Suc (length w)) (drop i s) = take (length w) (drop i s) @ [s ! (i + length w)]"
    by (simp add: take_Suc_conv_app_nth)
  with True show ?thesis by (auto simp: occurs_at_def)
next
  case False
  then show ?thesis by (auto simp: occurs_at_def)
qed

lemma ends_bound:
  "i \<le> length s \<Longrightarrow> j \<in> set (rx_ends ic s r i) \<Longrightarrow> j \<le> length s"
proof (induction r arbitrary: i j)
  case Eps
  then show ?case by simp
next
  case (Lit c)
  then show ?case by (simp split: if_splits)
next
  case Dot
  then show ?case by (simp split: if_splits)
next
  case WordB
  then show ?case by (simp split: if_splits)
next
  case (Cat a b)
  from Cat.prems(2) obtain k where k: "k \<in> set (rx_ends ic s a i)" and j: "j \<in> set (rx_ends ic s b k)"
    by auto
  from Cat.IH(1) [OF Cat.prems(1) k] have "k \<le> length s" .
  from Cat.IH(2) [OF this j] show ?case .
next
  case (Alt a b)
  from Alt.prems(2) have "j \<in> set (rx_ends ic s a i) \<or> j \<in> set (rx_ends ic s b i)"
    by simp
  then show ?case
    using Alt.IH(1) [OF Alt.prems(1)] Alt.IH(2) [OF Alt.prems(1)] by blast
qed

lemma concat_map_singleton_if:
  "(\<And>j. j \<in> set xs \<Longrightarrow> P j) \<Longrightarrow> concat (map (\<lambda>j. if P j then [f j] else []) xs) = map f xs"
  by (induction xs) auto

lemma ends_lits:
  assumes "i \<le> length s"
  shows "rx_ends False s (lits r w) i =
     concat (map (\<lambda>j. if occurs_at w s j then [j + length w] else []) (rx_ends False s r i))"
proof (induction w rule: rev_induct)
  case Nil
  have "\<And>j. j \<in> set (rx_ends False s r i) \<Longrightarrow> occurs_at [] s j"
    by (simp add: occurs_at_def ends_bound [OF assms])
  then have "concat (map (\<lambda>j. if occurs_at [] s j then [j + length ([] :: string)] else [])
                 (rx_ends False s r i)) = map (\<lambda>j. j + length ([] :: string)) (rx_ends False s r i)"
    by (rule concat_map_singleton_if)
  then show ?case by (simp add: lits_def)
next
  case (snoc c w)
  have cat: "lits r (w @ [c]) = Cat (lits r w) (Lit c)" by (simp add: lits_def)
  have one: "\<And>j. concat (map (rx_ends False s (Lit c)) (if occurs_at w s j then [j + length w] else [])) =
               (if occurs_at (w @ [c]) s j then [j + length (w @ [c])] else [])"
  proof -
    fix j show "concat (map (rx_ends False s (Lit c)) (if occurs_at w s j then [j + length w] else [])) =
               (if occurs_at (w @ [c]) s j then [j + length (w @ [c])] else [])"
      by (cases "occurs_at w s j"; cases "j + length w < length s"; cases "s ! (j + length w) = c")
         (simp_all add: occurs_at_snoc chr_eq_def)
  qed
  have step: "\<And>xs. concat (map (rx_ends False s (Lit c))
            (concat (map (\<lambda>j. if occurs_at w s j then [j + length w] else []) xs))) =
        concat (map (\<lambda>j. if occurs_at (w @ [c]) s j then [j + length (w @ [c])] else []) xs)"
  proof -
    fix xs show "concat (map (rx_ends False s (Lit c))
            (concat (map (\<lambda>j. if occurs_at w s j then [j + length w] else []) xs))) =
        concat (map (\<lambda>j. if occurs_at (w @ [c]) s j then [j + length (w @ [c])] else []) xs)"
    proof (induction xs)
      case Nil show ?case by simp
    next
      case (Cons x xs)
      show ?case
        by (simp only: list.map concat.simps map_append concat_append one Cons.IH)
    qed
  qed
  show ?case
    by (simp only: cat rx_ends.simps(5) snoc.IH step)
qed

lemma list_ex_upto: "list_ex P [0..<Suc n] = (\<exists>i \<le> n. P i)"
  by (auto simp: list_ex_iff less_Suc_eq_le simp del: upt_Suc)

lemma search_whole_literal:
  "rx_search False (Cat (lits (Cat Eps WordB) w) WordB) s =
     (\<exists>i. occurs_at w s i \<and> at_boundary s i \<and> at_boundary s (i + length w))"
proof -
  have ends: "\<And>i. i \<le> length s \<Longrightarrow>
      (rx_ends False s (Cat (lits (Cat Eps WordB) w) WordB) i \<noteq> []) =
      (occurs_at w s i \<and> at_boundary s i \<and> at_boundary s (i + length w))"
  proof -
    fix i assume "i \<le> length s"
    then show "(rx_ends False s (Cat (lits (Cat Eps WordB) w) WordB) i \<noteq> []) =
      (occurs_at w s i \<and> at_boundary s i \<and> at_boundary s (i + length w))"
      by (cases "at_boundary s i"; cases "occurs_at w s i"; cases "at_boundary s (i + length w)")
         (simp_all add: ends_lits)
  qed
  have "rx_search False (Cat (lits (Cat Eps WordB) w) WordB) s =
      (\<exists>i \<le> length s. rx_ends False s (Cat (lits (Cat Eps WordB) w) WordB) i \<noteq> [])"
    by (simp only: rx_search_def list_ex_upto)
  also have "\<dots> = (\<exists>i \<le> length s. occurs_at w s i \<and> at_boundary s i \<and> at_boundary s (i + length w))"
    using ends by blast
  also have "\<dots> = (\<exists>i. occurs_at w s i \<and> at_boundary s i \<and> at_boundary s (i + length w))"
  proof -
    have "\<And>i. occurs_at w s i \<Longrightarrow> i \<le> length s" by (simp add: occurs_at_def)
    then show ?thesis by blast
  qed
  finally show ?thesis .
qed

lemma contains_sublist: "contains w s = sublist w s"
proof (induction s)
  case Nil
  show ?case by simp
next
  case (Cons h hs)
  show ?case by (simp only: contains.simps Cons.IH sublist_Cons_right)
qed

lemma occurs_sublist: "occurs_at w s i \<Longrightarrow> sublist w s"
proof -
  assume h: "occurs_at w s i"
  have "s = take i s @ take (length w) (drop i s) @ drop (length w) (drop i s)"
    by (simp only: append_take_drop_id)
  with h have "s = take i s @ w @ drop (length w) (drop i s)"
    by (simp add: occurs_at_def)
  then show ?thesis unfolding sublist_def by blast
qed


section \<open>Properties of the matchers\<close>

lemma agrees_parsed: "agrees lib \<Longrightarrow> re_parse e = Parsed r \<Longrightarrow> lib e ic = Some (rx_search ic r)"
proof -
  assume a: "agrees lib" and p: "re_parse e = Parsed r"
  from a have "case re_parse e of Parsed r \<Rightarrow> lib e ic = Some (rx_search ic r)
                 | Re_Error \<Rightarrow> lib e ic = None | Unmodelled \<Rightarrow> True"
    unfolding agrees_def by blast
  with p show ?thesis by simp
qed

lemma agrees_frag: "agrees lib \<Longrightarrow> re_parse e \<noteq> Unmodelled \<Longrightarrow> lib e ic = frag_lib e ic"
proof -
  assume a: "agrees lib" and p: "re_parse e \<noteq> Unmodelled"
  from a have "case re_parse e of Parsed r \<Rightarrow> lib e ic = Some (rx_search ic r)
                 | Re_Error \<Rightarrow> lib e ic = None | Unmodelled \<Rightarrow> True"
    unfolding agrees_def by blast
  with p show ?thesis by (cases "re_parse e") (simp_all add: frag_lib_def)
qed

lemma literal_matcher_whole:
  assumes "agrees lib"
  shows "literal_matcher lib pattern cs True line =
     Some (rx_search False (Cat (lits (Cat Eps WordB) (fold_case cs pattern)) WordB) (fold_case cs line))"
  using agrees_parsed [OF assms parse_whole_literal, of "fold_case cs pattern" False]
  by (simp add: literal_matcher_def fold_case_def Let_def)

lemma literal_matcher_agrees:
  assumes "agrees lib"
  shows "literal_matcher lib pattern cs whole line = literal_matcher frag_lib pattern cs whole line"
proof (cases whole)
  case True
  then show ?thesis
    by (simp only: literal_matcher_whole [OF assms] literal_matcher_whole [OF agrees_frag_lib])
next
  case False
  then show ?thesis by (simp add: literal_matcher_def)
qed

lemma occurs_at_nth: "occurs_at w s i \<Longrightarrow> k < length w \<Longrightarrow> s ! (i + k) = w ! k"
proof -
  assume o: "occurs_at w s i" and k: "k < length w"
  from o have "w ! k = take (length w) (drop i s) ! k" by (simp add: occurs_at_def)
  also from k have "\<dots> = drop i s ! k" by simp
  also from o k have "\<dots> = s ! (i + k)" by (simp add: occurs_at_def)
  finally show ?thesis by simp
qed

lemma boundary_before_word:
  assumes "occurs_at w s i" "w \<noteq> []" "list_all is_word w"
  shows "at_boundary s i = (i = 0 \<or> \<not> is_word (s ! (i - 1)))"
proof -
  from assms(2) have l: "0 < length w" by simp
  from occurs_at_nth [OF assms(1) l] have "s ! i = w ! 0" by simp
  moreover from assms(3) l have "is_word (w ! 0)" by (simp add: list_all_length)
  moreover from assms(1) l have "i < length s" unfolding occurs_at_def by linarith
  ultimately show ?thesis by (auto simp: at_boundary_def)
qed

lemma boundary_after_word:
  assumes "occurs_at w s i" "w \<noteq> []" "list_all is_word w"
  shows "at_boundary s (i + length w) =
          (i + length w = length s \<or> \<not> is_word (s ! (i + length w)))"
proof -
  from assms(2) have l: "length w - 1 < length w" by simp
  from occurs_at_nth [OF assms(1) l] have "s ! (i + (length w - 1)) = w ! (length w - 1)" .
  moreover from assms(3) l have "is_word (w ! (length w - 1))" by (simp add: list_all_length)
  moreover from assms(2) have "i + length w - 1 = i + (length w - 1)" by (cases w) simp_all
  moreover from assms(1) have "i + length w \<le> length s" by (simp add: occurs_at_def)
  moreover from assms(2) have "0 < i + length w" by simp
  ultimately show ?thesis by (auto simp: at_boundary_def)
qed

lemma cat_examples:
  "literal_matcher frag_lib ''cat'' cs True ''concatenate'' = Some False"
  "literal_matcher frag_lib ''cat'' cs True ''the cat sat'' = Some True"
proof -
  have "literal_matcher frag_lib ''cat'' True True ''concatenate'' = Some False"
       "literal_matcher frag_lib ''cat'' False True ''concatenate'' = Some False"
    by code_simp+
  then show "literal_matcher frag_lib ''cat'' cs True ''concatenate'' = Some False"
    by (cases cs) simp_all
  have "literal_matcher frag_lib ''cat'' True True ''the cat sat'' = Some True"
       "literal_matcher frag_lib ''cat'' False True ''the cat sat'' = Some True"
    by code_simp+
  then show "literal_matcher frag_lib ''cat'' cs True ''the cat sat'' = Some True"
    by (cases cs) simp_all
qed

text \<open>
  C1. With \<open>isRegex\<close> off, the predicate of a pattern answers on every line. Without
  whole-word it is true exactly when the pattern, case folded with the line unless the
  match is case sensitive, is a substring of the line. With whole-word it is true exactly
  when the pattern stands at a place of the line with a word boundary on both sides, so
  it is found only where the pattern is a substring; for a pattern of word characters
  these are the occurrences with no word character right before or right after. The
  pattern \<open>cat\<close> is not found in \<open>concatenate\<close> and is found in \<open>the cat sat\<close>.
\<close>

theorem literal_predicate:
  assumes "agrees lib"
  shows "make_matcher lib pattern False cs whole = Some (literal_matcher lib pattern cs whole)
    \<and> literal_matcher lib pattern cs False line
        = Some (sublist (fold_case cs pattern) (fold_case cs line))
    \<and> literal_matcher lib pattern cs True line
        = Some (\<exists>i. occurs_at (fold_case cs pattern) (fold_case cs line) i
                  \<and> at_boundary (fold_case cs line) i
                  \<and> at_boundary (fold_case cs line) (i + length (fold_case cs pattern)))
    \<and> (literal_matcher lib pattern cs True line = Some True
         \<longrightarrow> sublist (fold_case cs pattern) (fold_case cs line))
    \<and> (pattern \<noteq> [] \<and> list_all is_word (fold_case cs pattern) \<longrightarrow>
         literal_matcher lib pattern cs True line
         = Some (\<exists>i. occurs_at (fold_case cs pattern) (fold_case cs line) i
                   \<and> (i = 0 \<or> \<not> is_word (fold_case cs line ! (i - 1)))
                   \<and> (i + length (fold_case cs pattern) = length (fold_case cs line)
                        \<or> \<not> is_word (fold_case cs line ! (i + length (fold_case cs pattern))))))
    \<and> literal_matcher lib ''cat'' cs True ''concatenate'' = Some False
    \<and> literal_matcher lib ''cat'' cs True ''the cat sat'' = Some True"
proof -
  define needle where "needle = fold_case cs pattern"
  define hay where "hay = fold_case cs line"
  have c0: "make_matcher lib pattern False cs whole = Some (literal_matcher lib pattern cs whole)"
    by (simp add: make_matcher_def)
  have c1: "literal_matcher lib pattern cs False line = Some (sublist needle hay)"
    by (simp add: literal_matcher_def fold_case_def contains_sublist needle_def hay_def Let_def)
  have c2: "literal_matcher lib pattern cs True line
        = Some (\<exists>i. occurs_at needle hay i \<and> at_boundary hay i \<and> at_boundary hay (i + length needle))"
    by (simp only: literal_matcher_whole [OF assms] search_whole_literal needle_def hay_def)
  have c3: "literal_matcher lib pattern cs True line = Some True \<longrightarrow> sublist needle hay"
    using c2 occurs_sublist by auto
  have c4: "pattern \<noteq> [] \<and> list_all is_word needle \<longrightarrow>
         literal_matcher lib pattern cs True line
         = Some (\<exists>i. occurs_at needle hay i
                   \<and> (i = 0 \<or> \<not> is_word (hay ! (i - 1)))
                   \<and> (i + length needle = length hay \<or> \<not> is_word (hay ! (i + length needle))))"
  proof
    assume h: "pattern \<noteq> [] \<and> list_all is_word needle"
    then have ne: "needle \<noteq> []" by (simp add: needle_def fold_case_def lower_def)
    have "\<And>i. (occurs_at needle hay i \<and> at_boundary hay i \<and> at_boundary hay (i + length needle))
         = (occurs_at needle hay i
                   \<and> (i = 0 \<or> \<not> is_word (hay ! (i - 1)))
                   \<and> (i + length needle = length hay \<or> \<not> is_word (hay ! (i + length needle))))"
      using boundary_before_word [OF _ ne] boundary_after_word [OF _ ne] h by blast
    then show "literal_matcher lib pattern cs True line
         = Some (\<exists>i. occurs_at needle hay i
                   \<and> (i = 0 \<or> \<not> is_word (hay ! (i - 1)))
                   \<and> (i + length needle = length hay \<or> \<not> is_word (hay ! (i + length needle))))"
      by (simp only: c2)
  qed
  have c5: "literal_matcher lib ''cat'' cs True ''concatenate'' = Some False"
    and c6: "literal_matcher lib ''cat'' cs True ''the cat sat'' = Some True"
    by (simp_all only: literal_matcher_agrees [OF assms] cat_examples)
  from c0 c1 c2 c3 c4 c5 c6 show ?thesis
    unfolding needle_def hay_def by blast
qed

theorem literal_predicate_witness:
  "agrees frag_lib
   \<and> literal_matcher frag_lib ''Cat'' False False ''conCATenate'' = Some True
   \<and> literal_matcher frag_lib ''Cat'' True False ''conCATenate'' = Some False
   \<and> literal_matcher frag_lib ''cat'' True True ''concatenate'' = Some False
   \<and> literal_matcher frag_lib ''cat'' False True ''The CAT sat.'' = Some True"
proof -
  note t = literal_predicate [OF agrees_frag_lib]
  have s1: "sublist (fold_case False ''Cat'') (fold_case False ''conCATenate'')"
    unfolding contains_sublist [symmetric] by code_simp
  have s2: "\<not> sublist (fold_case True ''Cat'') (fold_case True ''conCATenate'')"
    unfolding contains_sublist [symmetric] by code_simp
  have w: "list_all is_word (fold_case False ''cat'')" "''cat'' \<noteq> []"
    by code_simp+
  from t [of "''Cat''" False False "''conCATenate''"] s1
  have a: "literal_matcher frag_lib ''Cat'' False False ''conCATenate'' = Some True" by simp
  from t [of "''Cat''" True False "''conCATenate''"] s2
  have b: "literal_matcher frag_lib ''Cat'' True False ''conCATenate'' = Some False" by simp
  from t [of "''cat''" True True "''concatenate''"]
  have c: "literal_matcher frag_lib ''cat'' True True ''concatenate'' = Some False" by blast
  define P where "P = (\<lambda>i. occurs_at (fold_case False ''cat'') (fold_case False ''The CAT sat.'') i
        \<and> (i = 0 \<or> \<not> is_word (fold_case False ''The CAT sat.'' ! (i - 1)))
        \<and> (i + length (fold_case False ''cat'') = length (fold_case False ''The CAT sat.'')
             \<or> \<not> is_word (fold_case False ''The CAT sat.'' ! (i + length (fold_case False ''cat'')))))"
  have imp: "''cat'' \<noteq> [] \<and> list_all is_word (fold_case False ''cat'') \<longrightarrow>
        literal_matcher frag_lib ''cat'' False True ''The CAT sat.'' = Some (\<exists>i. P i)"
    unfolding P_def
    by (rule conjunct1 [OF conjunct2 [OF conjunct2 [OF conjunct2 [OF conjunct2
          [OF t [of "''cat''" False True "''The CAT sat.''"]]]]]])
  have pre: "''cat'' \<noteq> [] \<and> list_all is_word (fold_case False ''cat'')"
    using w by (intro conjI)
  from imp pre have eq: "literal_matcher frag_lib ''cat'' False True ''The CAT sat.'' = Some (\<exists>i. P i)"
    by (rule mp)
  have "P 4" unfolding P_def by code_simp
  then have "\<exists>i. P i" by (rule exI)
  with eq have d: "literal_matcher frag_lib ''cat'' False True ''The CAT sat.'' = Some True"
    by (simp only: simp_thms)
  from agrees_frag_lib a b c d show ?thesis by blast
qed

lemma make_matcher_agrees:
  assumes "agrees lib" "re_parse (if \<not> whole then pattern else whole_expr pattern) \<noteq> Unmodelled"
  shows "make_matcher lib pattern True cs whole = make_matcher frag_lib pattern True cs whole"
  using agrees_frag [OF assms(1) assms(2)] by (simp add: make_matcher_def)

lemma highlight_agrees:
  assumes "agrees lib"
    "re_parse (if whole then [BSL, CHR ''b''] @ ''(?:'' @ pattern @ '')'' @ [BSL, CHR ''b''] else pattern) \<noteq> Unmodelled"
  shows "build_highlight_regex lib pattern True cs whole = build_highlight_regex frag_lib pattern True cs whole"
  using agrees_frag [OF assms(1) assms(2)] by (simp add: build_highlight_regex_def Let_def)

text \<open>
  C2. With whole-word on, a worker compiles a regular expression as \<open>\b\<close>, the
  pattern, \<open>\b\<close>, with no group around the pattern. For \<open>cat|dog\<close> the expression is
  \<open>\bcat|dog\b\<close>: the first boundary belongs to \<open>cat\<close> alone and the last to \<open>dog\<close>
  alone, so the lines \<open>hotdog\<close> and \<open>catalog\<close> match. The preview's
  \<open>_build_highlight_regex\<close> wraps the pattern as one unit, \<open>\b(?:cat|dog)\b\<close>, which
  matches neither.
\<close>

theorem whole_word_alternation_not_grouped:
  assumes "agrees lib"
  shows "map_option (\<lambda>m. map m [''hotdog'', ''catalog'', ''a dog''])
           (make_matcher lib ''cat|dog'' True True True) = Some [Some True, Some True, Some True]
       \<and> map_option (\<lambda>h. map h [''hotdog'', ''catalog'', ''a dog''])
           (build_highlight_regex lib ''cat|dog'' True True True) = Some [False, False, True]"
proof -
  have p1: "re_parse (if \<not> True then ''cat|dog'' else whole_expr ''cat|dog'') \<noteq> Unmodelled"
    by code_simp
  have p2: "re_parse (if True then [BSL, CHR ''b''] @ ''(?:'' @ ''cat|dog'' @ '')'' @ [BSL, CHR ''b'']
                      else ''cat|dog'') \<noteq> Unmodelled"
    by code_simp
  have e1: "map_option (\<lambda>m. map m [''hotdog'', ''catalog'', ''a dog''])
           (make_matcher frag_lib ''cat|dog'' True True True) = Some [Some True, Some True, Some True]"
    by code_simp
  have e2: "map_option (\<lambda>h. map h [''hotdog'', ''catalog'', ''a dog''])
           (build_highlight_regex frag_lib ''cat|dog'' True True True) = Some [False, False, True]"
    by code_simp
  show ?thesis
    by (simp only: make_matcher_agrees [OF assms p1] highlight_agrees [OF assms p2] e1 e2)
qed

theorem whole_word_alternation_not_grouped_witness:
  "agrees frag_lib
   \<and> map_option (\<lambda>m. map m [''hotdog'', ''catalog'', ''a dog''])
           (make_matcher frag_lib ''cat|dog'' True True True) = Some [Some True, Some True, Some True]
   \<and> map_option (\<lambda>h. map h [''hotdog'', ''catalog'', ''a dog''])
           (build_highlight_regex frag_lib ''cat|dog'' True True True) = Some [False, False, True]"
  using whole_word_alternation_not_grouped [OF agrees_frag_lib] agrees_frag_lib by blast

section \<open>Properties of the workers' loops\<close>

lemma poll_cases:
  obtains (stop) st1 where "poll st = (True, st1)" "log_q st1 = log_q st" "result_q st1 = result_q st"
            "uncaught st1 = uncaught st"
  | (go) st1 where "poll st = (False, st1)" "log_q st1 = log_q st" "result_q st1 = result_q st"
            "uncaught st1 = uncaught st"
  by (cases "poll st") (auto simp: poll_def split: if_splits option.splits nat.splits)

lemma records_of_emit:
  "records_of q (emit r st) = records_of q st @ (if rec_path r = q then [r] else [])"
  by (simp add: records_of_def emit_def)

lemma records_of_cong: "result_q st' = result_q st \<Longrightarrow> records_of q st' = records_of q st"
  by (simp add: records_of_def)

lemma scan_lines_log: "log_q (scan_lines m first p i ls st) = log_q st"
proof (induction ls arbitrary: i st first)
  case Nil
  show ?case by simp
next
  case (Cons l ls)
  show ?case
  proof (cases st rule: poll_cases)
    case (stop st1)
    then show ?thesis by simp
  next
    case (go st1)
    have "log_q (emit (Content p i (rstrip_chr LF l)) st1) = log_q st"
      using go by (simp add: emit_def)
    with go show ?thesis
      by (simp add: Cons.IH Let_def split: option.split bool.split)
  qed
qed

lemma text_file_log: "log_q (text_file m cfg first ft dpath f st) = log_q st"
  by (simp add: text_file_def scan_lines_log count_scanned_def Let_def split: option.split)

lemma text_files_log: "log_q (text_files m cfg first ft dpath fs st) = log_q st"
proof (induction fs arbitrary: st)
  case Nil
  show ?case by simp
next
  case (Cons f fs)
  show ?case
    by (cases st rule: poll_cases) (simp_all add: Cons.IH text_file_log)
qed

lemma text_entries_log:
  "set (log_q (text_entries m cfg first ft es st)) \<subseteq> set (log_q st) \<union> range Scanning"
proof (induction es arbitrary: st)
  case Nil
  show ?case by simp
next
  case (Cons e es)
  obtain dpath rel dirs files where e: "e = (dpath, rel, dirs, files)" by (cases e)
  show ?case
  proof (cases st rule: poll_cases)
    case (stop st1)
    then show ?thesis by (simp add: e)
  next
    case (go st1)
    have "set (log_q (text_entries m cfg first ft es
             (text_files m cfg first ft dpath files (st1\<lparr>log_q := log_q st1 @ [Scanning dpath]\<rparr>))))
          \<subseteq> set (log_q (text_files m cfg first ft dpath files (st1\<lparr>log_q := log_q st1 @ [Scanning dpath]\<rparr>)))
             \<union> range Scanning"
      by (rule Cons.IH)
    with go show ?thesis by (auto simp: e text_files_log)
  qed
qed

lemma scan_lines_first:
  "length (records_of q (scan_lines m True p i ls st))
     \<le> length (records_of q st) + (if q = p then 1 else 0)"
proof (induction ls arbitrary: i st)
  case Nil
  show ?case by simp
next
  case (Cons l ls)
  show ?case
  proof (cases st rule: poll_cases)
    case (stop st1)
    with records_of_cong [of st1 st q] show ?thesis by simp
  next
    case (go st1)
    have r: "records_of q st1 = records_of q st" using go records_of_cong [of st1 st q] by simp
    show ?thesis
    proof (cases "m l")
      case None
      with go r show ?thesis by simp
    next
      case (Some b)
      show ?thesis
      proof (cases b)
        case True
        with go Some r show ?thesis by (simp add: records_of_emit)
      next
        case False
        with go Some r Cons.IH [of "Suc i" st1] show ?thesis by simp
      qed
    qed
  qed
qed

lemma records_of_count_scanned: "records_of q (count_scanned st) = records_of q st"
  by (simp add: records_of_def count_scanned_def)

lemma text_file_cases:
  obtains (skip) "text_file m cfg first ft dpath f st = st"
  | (counted) "text_file m cfg first ft dpath f st = count_scanned st"
  | (scanned) data where "text_file m cfg first ft dpath f st =
       scan_lines m first (path_join dpath (f_name f)) 1 (text_lines [] data) (count_scanned st)"
proof (cases "ft \<noteq> ''All'' \<and> \<not> endswith (f_name f) ft")
  case True
  then have "text_file m cfg first ft dpath f st = st" by (simp add: text_file_def)
  then show ?thesis by (rule skip)
next
  case ft: False
  show ?thesis
  proof (cases "name_filtered cfg (f_name f)")
    case True
    with ft have "text_file m cfg first ft dpath f st = st" by (simp add: text_file_def)
    then show ?thesis by (rule skip)
  next
    case nf: False
    show ?thesis
    proof (cases "f_size f")
      case None
      with ft nf have "text_file m cfg first ft dpath f st = st" by (simp add: text_file_def)
      then show ?thesis by (rule skip)
    next
      case (Some sz)
      show ?thesis
      proof (cases "size_capped cfg sz")
        case True
        with ft nf Some have "text_file m cfg first ft dpath f st = st" by (simp add: text_file_def)
        then show ?thesis by (rule skip)
      next
        case cap: False
        show ?thesis
        proof (cases "is_binary_quick f \<or> f_data f = None")
          case True
          with ft nf Some cap have "text_file m cfg first ft dpath f st = count_scanned st"
            by (auto simp: text_file_def Let_def)
          then show ?thesis by (rule counted)
        next
          case False
          then obtain data where "f_data f = Some data" by auto
          with False ft nf Some cap have "text_file m cfg first ft dpath f st =
              scan_lines m first (path_join dpath (f_name f)) 1 (text_lines [] data) (count_scanned st)"
            by (auto simp: text_file_def Let_def)
          then show ?thesis by (rule scanned)
        qed
      qed
    qed
  qed
qed

lemma text_file_first:
  "length (records_of q (text_file m cfg True ft dpath f st))
     \<le> length (records_of q st) + (if q = path_join dpath (f_name f) then 1 else 0)"
proof (cases m cfg True ft dpath f st rule: text_file_cases)
  case skip
  then show ?thesis by simp
next
  case counted
  then show ?thesis by (simp add: records_of_count_scanned)
next
  case (scanned data)
  have "length (records_of q (scan_lines m True (path_join dpath (f_name f)) 1 (text_lines [] data) (count_scanned st)))
        \<le> length (records_of q (count_scanned st)) + (if q = path_join dpath (f_name f) then 1 else 0)"
    by (rule scan_lines_first)
  with scanned show ?thesis by (simp only: records_of_count_scanned)
qed

lemma text_files_first:
  "length (records_of q (text_files m cfg True ft dpath fs st))
     \<le> length (records_of q st) + length (filter (\<lambda>x. x = q) (map (\<lambda>f. path_join dpath (f_name f)) fs))"
proof (induction fs arbitrary: st)
  case Nil
  show ?case by simp
next
  case (Cons f fs)
  show ?case
  proof (cases st rule: poll_cases)
    case (stop st1)
    with records_of_cong [of st1 st q] show ?thesis by simp
  next
    case (go st1)
    have r: "records_of q st1 = records_of q st" using go records_of_cong [of st1 st q] by simp
    have "length (records_of q (text_files m cfg True ft dpath fs (text_file m cfg True ft dpath f st1)))
        \<le> length (records_of q (text_file m cfg True ft dpath f st1))
           + length (filter (\<lambda>x. x = q) (map (\<lambda>f. path_join dpath (f_name f)) fs))"
      by (rule Cons.IH)
    also have "length (records_of q (text_file m cfg True ft dpath f st1))
        \<le> length (records_of q st) + (if q = path_join dpath (f_name f) then 1 else 0)"
      using text_file_first [of q m cfg ft dpath f st1] by (simp only: r)
    finally show ?thesis using go by auto
  qed
qed

lemma text_entries_first:
  "length (records_of q (text_entries m cfg True ft es st))
     \<le> length (records_of q st) + length (filter (\<lambda>x. x = q) (entry_paths es))"
proof (induction es arbitrary: st)
  case Nil
  show ?case by simp
next
  case (Cons e es)
  obtain dpath rel dirs files where e: "e = (dpath, rel, dirs, files)" by (cases e)
  have ep: "entry_paths ((dpath, rel, dirs, files) # es) =
              map (\<lambda>f. path_join dpath (f_name f)) files @ entry_paths es"
    by (simp add: entry_paths_def)
  show ?case
  proof (cases st rule: poll_cases)
    case (stop st1)
    with records_of_cong [of st1 st q] show ?thesis by (simp add: e)
  next
    case (go st1)
    define st2 where "st2 = st1\<lparr>log_q := log_q st1 @ [Scanning dpath]\<rparr>"
    have r: "records_of q st2 = records_of q st" using go by (simp add: records_of_def st2_def)
    have "length (records_of q (text_entries m cfg True ft es (text_files m cfg True ft dpath files st2)))
        \<le> length (records_of q (text_files m cfg True ft dpath files st2))
           + length (filter (\<lambda>x. x = q) (entry_paths es))"
      by (rule Cons.IH)
    also have "length (records_of q (text_files m cfg True ft dpath files st2))
        \<le> length (records_of q st) + length (filter (\<lambda>x. x = q) (map (\<lambda>f. path_join dpath (f_name f)) files))"
      using text_files_first [of q m cfg ft dpath files st2] by (simp only: r)
    finally show ?thesis using go by (simp add: e ep st2_def)
  qed
qed

lemma distinct_filter_eq_le1: "distinct xs \<Longrightarrow> length (filter (\<lambda>x. x = q) xs) \<le> 1"
  by (induction xs) (auto simp: filter_empty_conv)

text \<open>
  C5. With first-match-per-file on, the content worker puts at most one record of a file
  on the result queue, whatever the matcher, the tree and the moment of a cancellation:
  the line loop is left at the first line that matches. The files of a tree have distinct
  paths, which is how a record names its file.
\<close>

theorem first_match_one_record_per_file:
  assumes "distinct (entry_paths (walk_with_depth cfg (\<lambda>n. \<not> excluded cfg n) tree))"
  shows "length (records_of p (worker_text lib cfg rg_missing True pattern use_regex cs whole
                                  filetype tree (fresh c))) \<le> 1"
proof -
  define st0 where "st0 = (if rg_missing then (fresh c)\<lparr>log_q := log_q (fresh c) @ [Rg_fallback]\<rparr> else fresh c)"
  have r0: "records_of p st0 = []" by (simp add: st0_def records_of_def fresh_def)
  show ?thesis
  proof (cases "make_matcher lib pattern use_regex cs whole")
    case None
    then show ?thesis by (simp add: worker_text_def records_of_def fresh_def Let_def)
  next
    case (Some m)
    let ?es = "walk_with_depth cfg (\<lambda>n. \<not> excluded cfg n) tree"
    have "length (records_of p (text_entries m cfg True filetype ?es st0))
          \<le> length (records_of p st0) + length (filter (\<lambda>x. x = p) (entry_paths ?es))"
      by (rule text_entries_first)
    also have "\<dots> \<le> 1" using distinct_filter_eq_le1 [OF assms] by (simp add: r0)
    finally have "length (records_of p (text_entries m cfg True filetype ?es st0)) \<le> 1" .
    moreover have "records_of p (worker_text lib cfg rg_missing True pattern use_regex cs whole
                                  filetype tree (fresh c))
                   = records_of p (text_entries m cfg True filetype ?es st0)"
      using Some by (simp add: worker_text_def records_of_def st0_def Let_def)
    ultimately show ?thesis by simp
  qed
qed

theorem first_match_one_record_per_file_witness:
  "distinct (entry_paths (walk_with_depth ex_cfg (\<lambda>n. \<not> excluded ex_cfg n) ex_text_tree))
   \<and> length (records_of ''/r/a.txt'' (worker_text frag_lib ex_cfg False True ''hello'' False False False
                ''All'' ex_text_tree (fresh None))) \<le> 1
   \<and> records_of ''/r/a.txt'' (worker_text frag_lib ex_cfg False True ''hello'' False False False
                ''All'' ex_text_tree (fresh None)) = [Content ''/r/a.txt'' 1 ''hello'']
   \<and> records_of ''/r/a.txt'' (worker_text frag_lib ex_cfg False False ''hello'' False False False
                ''All'' ex_text_tree (fresh None))
       = [Content ''/r/a.txt'' 1 ''hello'', Content ''/r/a.txt'' 3 ''hello again'']"
proof -
  have d: "distinct (entry_paths (walk_with_depth ex_cfg (\<lambda>n. \<not> excluded ex_cfg n) ex_text_tree))"
    by code_simp
  have one: "records_of ''/r/a.txt'' (worker_text frag_lib ex_cfg False True ''hello'' False False False
                ''All'' ex_text_tree (fresh None)) = [Content ''/r/a.txt'' 1 ''hello'']"
    by code_simp
  have two: "records_of ''/r/a.txt'' (worker_text frag_lib ex_cfg False False ''hello'' False False False
                ''All'' ex_text_tree (fresh None))
       = [Content ''/r/a.txt'' 1 ''hello'', Content ''/r/a.txt'' 3 ''hello again'']"
    by code_simp
  from first_match_one_record_per_file [OF d, of "''/r/a.txt''" frag_lib False "''hello''" False False False
         "''All''" None]
  have "length (records_of ''/r/a.txt'' (worker_text frag_lib ex_cfg False True ''hello'' False False False
                ''All'' ex_text_tree (fresh None))) \<le> 1" .
  with d one two show ?thesis by blast
qed

lemma invalid_regex_ends_text_run:
  assumes "lib (if \<not> whole then pattern else whole_expr pattern) (\<not> cs) = None"
  shows "worker_text lib cfg False first pattern True cs whole filetype tree st
           = st\<lparr>log_q := log_q st @ [Invalid_regex], stop_event := True\<rparr>"
  using assms by (simp add: worker_text_def make_matcher_def)

lemma invalid_regex_ends_folder_run:
  assumes "(fr \<and> lib (if \<not> fw then fp else whole_expr fp) (\<not> fc) = None)
           \<or> (cf \<and> cr \<and> lib (if \<not> cw then cp else whole_expr cp) (\<not> cc) = None)"
  shows "worker_folder lib cfg fp fr fc fw cf cp cr cc cw tree st
           = st\<lparr>log_q := log_q st @ [Invalid_folder_regex], stop_event := True\<rparr>
       \<or> worker_folder lib cfg fp fr fc fw cf cp cr cc cw tree st
           = st\<lparr>log_q := log_q st @ [Invalid_content_regex], stop_event := True\<rparr>"
proof (cases "make_matcher lib fp fr fc fw")
  case None
  then show ?thesis by (simp add: worker_folder_def)
next
  case (Some mf)
  then have "\<not> (fr \<and> lib (if \<not> fw then fp else whole_expr fp) (\<not> fc) = None)"
    by (auto simp: make_matcher_def split: option.splits)
  with assms have "content_matcher lib cf cp cr cc cw = None"
    by (simp add: content_matcher_def make_matcher_def)
  with Some show ?thesis by (simp add: worker_folder_def)
qed

lemma invalid_regex_ends_file_run:
  assumes "(fr \<and> lib (if \<not> fw then fp else whole_expr fp) (\<not> fc) = None)
           \<or> (cf \<and> cr \<and> lib (if \<not> cw then cp else whole_expr cp) (\<not> cc) = None)"
  shows "worker_file lib cfg fp fr fc fw cf cp cr cc cw tree st
           = st\<lparr>log_q := log_q st @ [Invalid_filename_regex], stop_event := True\<rparr>
       \<or> worker_file lib cfg fp fr fc fw cf cp cr cc cw tree st
           = st\<lparr>log_q := log_q st @ [Invalid_content_regex], stop_event := True\<rparr>"
proof (cases "make_matcher lib fp fr fc fw")
  case None
  then show ?thesis by (simp add: worker_file_def)
next
  case (Some mf)
  then have "\<not> (fr \<and> lib (if \<not> fw then fp else whole_expr fp) (\<not> fc) = None)"
    by (auto simp: make_matcher_def split: option.splits)
  with assms have "content_matcher lib cf cp cr cc cw = None"
    by (simp add: content_matcher_def make_matcher_def)
  with Some show ?thesis by (simp add: worker_file_def)
qed

text \<open>
  C8. The pattern \<open>\\<close>, a lone backslash, is not a regular expression: the library
  rejects it, and so does the preview's \<open>_build_highlight_regex\<close>. With whole-word on,
  the content worker compiles \<open>\b\\b\<close> instead, which is one: a word boundary, a
  backslash and the letter \<open>b\<close>. The run does not end with the invalid-regex error; it scans
  the tree and emits a record for the line \<open>a\b\<close> of \<open>esc.txt\<close>.
\<close>

theorem lone_backslash_whole_word_scans:
  assumes "agrees lib"
  shows "lib [BSL] False = None
       \<and> build_highlight_regex lib [BSL] True True True = None
       \<and> worker_text lib ex_cfg False False [BSL] True True True ''All'' ex_esc_tree (fresh None)
          = \<lparr>log_q = [Scanning ''/r''],
             result_q = [Content ''/r/esc.txt'' 1 [CHR ''a'', BSL, CHR ''b'']],
             files_scanned = 1, matches_found = 1, stop_event = True,
             cancel_in = None, uncaught = False\<rparr>"
proof -
  have p0: "re_parse [BSL] \<noteq> Unmodelled" by code_simp
  have p1: "re_parse (if \<not> True then [BSL] else whole_expr [BSL]) \<noteq> Unmodelled" by code_simp
  have p2: "re_parse (if True then [BSL, CHR ''b''] @ ''(?:'' @ [BSL] @ '')'' @ [BSL, CHR ''b''] else [BSL])
              \<noteq> Unmodelled" by code_simp
  have e0: "frag_lib [BSL] False = None" by code_simp
  have e1: "build_highlight_regex frag_lib [BSL] True True True = None" by code_simp
  have e2: "worker_text frag_lib ex_cfg False False [BSL] True True True ''All'' ex_esc_tree (fresh None)
          = \<lparr>log_q = [Scanning ''/r''],
             result_q = [Content ''/r/esc.txt'' 1 [CHR ''a'', BSL, CHR ''b'']],
             files_scanned = 1, matches_found = 1, stop_event = True,
             cancel_in = None, uncaught = False\<rparr>"
    by code_simp
  have w: "worker_text lib ex_cfg False False [BSL] True True True ''All'' ex_esc_tree (fresh None)
         = worker_text frag_lib ex_cfg False False [BSL] True True True ''All'' ex_esc_tree (fresh None)"
    by (simp only: worker_text_def make_matcher_agrees [OF assms p1])
  show ?thesis
    by (simp only: agrees_frag [OF assms p0] highlight_agrees [OF assms p2] w e0 e1 e2 simp_thms)
qed

theorem lone_backslash_whole_word_scans_witness:
  "agrees frag_lib
   \<and> frag_lib [BSL] False = None
   \<and> result_q (worker_text frag_lib ex_cfg False False [BSL] True True True ''All'' ex_esc_tree (fresh None))
       = [Content ''/r/esc.txt'' 1 [CHR ''a'', BSL, CHR ''b'']]"
proof -
  note t = lone_backslash_whole_word_scans [OF agrees_frag_lib]
  from t have a: "frag_lib [BSL] False = None" by (rule conjunct1)
  from t have "worker_text frag_lib ex_cfg False False [BSL] True True True ''All'' ex_esc_tree (fresh None)
          = \<lparr>log_q = [Scanning ''/r''],
             result_q = [Content ''/r/esc.txt'' 1 [CHR ''a'', BSL, CHR ''b'']],
             files_scanned = 1, matches_found = 1, stop_event = True,
             cancel_in = None, uncaught = False\<rparr>"
    by (rule conjunct2 [THEN conjunct2])
  then have b: "result_q (worker_text frag_lib ex_cfg False False [BSL] True True True ''All'' ex_esc_tree (fresh None))
       = [Content ''/r/esc.txt'' 1 [CHR ''a'', BSL, CHR ''b'']]"
    by simp
  from agrees_frag_lib a b show ?thesis by (intro conjI)
qed

end
